theory Spec2Isabelle
  imports Complex_Main "HOL-Library.Word" "HOL-Library.Multiset"
begin

unbundle bit_operations_syntax

section \<open>Python and NumPy primitives used by \<open>vggt_to_colmap.py\<close>\<close>

text \<open>
  Exceptions are values. \<open>ValueError\<close>: \<open>np.max\<close> of an empty array, \<open>range\<close> with step 0;
  \<open>ZeroDivisionError\<close>: \<open>orig_h / h\<close> on Python ints; \<open>IndexError\<close>: an index out of
  range; \<open>KeyError\<close>: a key missing from a dict; \<open>StructError\<close>: \<open>struct.pack\<close> of an
  integer that does not fit its field.
\<close>

datatype error = ValueError | ZeroDivisionError | IndexError | KeyError | StructError

definition bindE :: "error + 'a \<Rightarrow> ('a \<Rightarrow> error + 'b) \<Rightarrow> error + 'b" where
  "bindE m f = (case m of Inl e \<Rightarrow> Inl e | Inr a \<Rightarrow> f a)"

text \<open>A \<open>for\<close> loop whose body may raise: the first exception ends the loop.\<close>

fun foldE :: "('a \<Rightarrow> 's \<Rightarrow> error + 's) \<Rightarrow> 'a list \<Rightarrow> 's \<Rightarrow> error + 's" where
  "foldE f [] s = Inr s"
| "foldE f (a # as) s = (case f a s of Inl e \<Rightarrow> Inl e | Inr s' \<Rightarrow> foldE f as s')"

text \<open>
  Floating-point numbers are modelled by the real number they denote, plus the three
  non-finite values that \<open>np.isfinite\<close> tells apart from them; rounding error of the
  floating-point operations is not modelled. The coordinates of the world points and
  the confidences are such floats.
\<close>

datatype fl = Finite real | PosInf | NegInf | NaN


text \<open>
  The comparisons \<open>a > b\<close> and \<open>a <= b\<close> of two floats: a comparison with NaN is false
  either way round.
\<close>

fun fl_gt :: "fl \<Rightarrow> fl \<Rightarrow> bool" where
  "fl_gt NaN b = False"
| "fl_gt (Finite a) NaN = False"
| "fl_gt PosInf NaN = False"
| "fl_gt NegInf b = False"
| "fl_gt (Finite a) (Finite b) = (a > b)"
| "fl_gt (Finite a) PosInf = False"
| "fl_gt (Finite a) NegInf = True"
| "fl_gt PosInf (Finite b) = True"
| "fl_gt PosInf PosInf = False"
| "fl_gt PosInf NegInf = True"

fun fl_le :: "fl \<Rightarrow> fl \<Rightarrow> bool" where
  "fl_le NaN b = False"
| "fl_le (Finite a) NaN = False"
| "fl_le PosInf NaN = False"
| "fl_le NegInf NaN = False"
| "fl_le NegInf (Finite b) = True"
| "fl_le NegInf PosInf = True"
| "fl_le NegInf NegInf = True"
| "fl_le (Finite a) (Finite b) = (a \<le> b)"
| "fl_le (Finite a) PosInf = True"
| "fl_le (Finite a) NegInf = False"
| "fl_le PosInf (Finite b) = False"
| "fl_le PosInf PosInf = True"
| "fl_le PosInf NegInf = False"

text \<open>The product of a finite Python float and a float.\<close>

fun fl_times :: "real \<Rightarrow> fl \<Rightarrow> fl" where
  "fl_times c (Finite r) = Finite (c * r)"
| "fl_times c PosInf = (if 0 < c then PosInf else if c < 0 then NegInf else NaN)"
| "fl_times c NegInf = (if 0 < c then NegInf else if c < 0 then PosInf else NaN)"
| "fl_times c NaN = NaN"

type_synonym point = "fl \<times> fl \<times> fl"
type_synonym rpoint = "real \<times> real \<times> real"
type_synonym rgb = "8 word \<times> 8 word \<times> 8 word"

text \<open>\<open>np.all(np.isfinite(point3D))\<close>, returning the coordinates when it holds.\<close>

fun finite_point :: "point \<Rightarrow> rpoint option" where
  "finite_point (Finite x, Finite y, Finite z) = Some (x, y, z)"
| "finite_point p = None"

text \<open>\<open>np.round\<close> rounds to the nearest integer, a tie to the even neighbour.\<close>

definition np_round :: "real \<Rightarrow> int" where
  "np_round r =
     (let f = \<lfloor>r\<rfloor>; d = r - of_int f
      in if d < 1 / 2 then f else if 1 / 2 < d then f + 1
         else if even f then f else f + 1)"

text \<open>
  Indexing a sequence with a non-negative index, and with a Python integer that may be
  negative (counting from the end).
\<close>

definition item :: "'a list \<Rightarrow> nat \<Rightarrow> error + 'a" where
  "item xs i = (if i < length xs then Inr (xs ! i) else Inl IndexError)"

definition item_int :: "'a list \<Rightarrow> int \<Rightarrow> error + 'a" where
  "item_int xs i =
     (if 0 \<le> i then item xs (nat i)
      else if - int (length xs) \<le> i then item xs (nat (int (length xs) + i))
      else Inl IndexError)"

text \<open>\<open>a.shape[:2]\<close> of an array stored as a list of rows.\<close>

definition shape2 :: "'a list list \<Rightarrow> nat \<times> nat" where
  "shape2 g = (length g, case g of [] \<Rightarrow> 0 | r # _ \<Rightarrow> length r)"

text \<open>\<open>range(0, stop, step)\<close>: step 0 raises, a negative step gives the empty range.\<close>

definition py_range :: "nat \<Rightarrow> int \<Rightarrow> error + nat list" where
  "py_range stop step =
     (if step = 0 then Inl ValueError
      else if step < 0 then Inr []
      else Inr (map (\<lambda>k. k * nat step) [0..<(stop + nat step - 1) div nat step]))"

text \<open>
  \<open>np.max\<close> over all entries of a three-dimensional array; an empty array raises, and
  the result is NaN as soon as one entry is.
\<close>

definition flat :: "'a list list list \<Rightarrow> 'a list" where
  "flat a = concat (concat a)"

definition fl_max :: "fl \<Rightarrow> fl \<Rightarrow> fl" where
  "fl_max a b = (if a = NaN \<or> b = NaN then NaN else if fl_gt b a then b else a)"

definition np_max :: "fl list list list \<Rightarrow> error + fl" where
  "np_max a = (case flat a of [] \<Rightarrow> Inl ValueError | v # vs \<Rightarrow> Inr (fold fl_max vs v))"

subsection \<open>The built-in \<open>hash\<close> on integers and tuples (CPython, 64 bit)\<close>

text \<open>
  \<open>hash\<close> of an integer is its value modulo \<open>2^61 - 1\<close> with the sign kept, except that
  \<open>-1\<close> is reserved and replaced by \<open>-2\<close>. A NumPy \<open>int64\<close> scalar hashes like the Python
  integer of the same value.
\<close>

definition py_hash_int :: "int \<Rightarrow> int" where
  "py_hash_int n =
     (let m = 2 ^ 61 - 1;
          h = (if n < 0 then - ((- n) mod m) else n mod m)
      in if h = - 1 then - 2 else h)"

text \<open>\<open>hash\<close> of a tuple mixes the hashes of its elements, in order, in 64-bit arithmetic.\<close>

definition xxprime_1 :: "64 word" where "xxprime_1 = 11400714785074694791"
definition xxprime_2 :: "64 word" where "xxprime_2 = 14029467366897019727"
definition xxprime_5 :: "64 word" where "xxprime_5 = 2870177450012600261"

definition xx_lane :: "int \<Rightarrow> 64 word \<Rightarrow> 64 word" where
  "xx_lane h acc =
     (let a = acc + word_of_int h * xxprime_2;
          r = push_bit 31 a OR drop_bit 33 a
      in r * xxprime_1)"

definition py_hash_tuple :: "int list \<Rightarrow> int" where
  "py_hash_tuple t =
     (let acc = fold xx_lane (map py_hash_int t) xxprime_5;
          acc' = acc + (word_of_nat (length t) XOR (xxprime_5 XOR 3527539))
      in if acc' = - 1 then 1546275796 else sint acc')"

section \<open>Classifier heuristics\<close>

definition is_sky_point :: "rpoint \<Rightarrow> rgb \<Rightarrow> bool" where
  "is_sky_point p c =
     (case p of (px, py, pz) \<Rightarrow> case c of (r, g, b) \<Rightarrow>
        py > 1 \<and> real (unat b) > 12 / 10 * real (unat r)
               \<and> real (unat b) > 12 / 10 * real (unat g))"

definition np_mean :: "rgb \<Rightarrow> real" where
  "np_mean c = (case c of (r, g, b) \<Rightarrow> (real (unat r) + real (unat g) + real (unat b)) / 3)"

definition np_std :: "rgb \<Rightarrow> real" where
  "np_std c =
     (case c of (r, g, b) \<Rightarrow>
        sqrt (((real (unat r) - np_mean c)\<^sup>2 + (real (unat g) - np_mean c)\<^sup>2
               + (real (unat b) - np_mean c)\<^sup>2) / 3))"

definition is_black_bg_point :: "rgb \<Rightarrow> bool" where
  "is_black_bg_point c = (np_mean c < 30)"

definition is_white_bg_point :: "rgb \<Rightarrow> bool" where
  "is_white_bg_point c = (np_mean c > 230 \<and> np_std c < 15)"

text \<open>The variance under the square root of \<open>np_std\<close>; it decides the test without a root.\<close>

definition np_var :: "rgb \<Rightarrow> real" where
  "np_var c =
     (case c of (r, g, b) \<Rightarrow>
        ((real (unat r) - np_mean c)\<^sup>2 + (real (unat g) - np_mean c)\<^sup>2
          + (real (unat b) - np_mean c)\<^sup>2) / 3)"

section \<open>Point aggregator\<close>

text \<open>
  \<open>hash_point\<close>: the coordinates times \<open>scale\<close>, rounded, cast to integers, as a tuple,
  and the built-in hash of that tuple.
\<close>

definition quantized :: "rpoint \<Rightarrow> int \<Rightarrow> int list" where
  "quantized p scale =
     (case p of (x, y, z) \<Rightarrow>
        [np_round (x * of_int scale), np_round (y * of_int scale), np_round (z * of_int scale)])"

definition hash_point :: "rpoint \<Rightarrow> int \<Rightarrow> int" where
  "hash_point p scale = py_hash_tuple (quantized p scale)"

text \<open>
  The entries of \<open>predictions\<close> that the aggregator and \<open>main\<close> read. \<open>depth\<close> is stored
  without its trailing axis of length one. Confidences are finite numbers.
\<close>

text \<open>A camera matrix (3 by 3 intrinsic, 3 by 4 extrinsic) as its list of rows.\<close>

type_synonym matrix = "real list list"

record predictions =
  depth :: "real list list list"
  depth_conf :: "fl list list list"
  world_points_from_depth :: "point list list list"
  original_images :: "rgb list list list"
  intrinsic :: "matrix list"
  extrinsic :: "matrix list"

record point_entry =
  pid :: nat
  xyz :: rpoint
  color :: rgb
  err :: real
  track :: "(nat \<times> nat) list"

type_synonym keypoint = "nat \<times> nat \<times> nat"

text \<open>The three containers of \<open>filter_and_prepare_points\<close>.\<close>

record agg_state =
  points3D :: "point_entry list"
  point_indices :: "int \<rightharpoonup> nat"
  image_points2D :: "keypoint list list"

record flags =
  mask_sky :: bool
  mask_black_bg :: bool
  mask_white_bg :: bool

text \<open>
  Lines 179 to 201: the body run for an accepted sample. A new hash creates a point
  whose id is the current number of points; a known hash extends that point's track;
  either way the image gets a keypoint carrying the point's index.
\<close>

definition add_sample ::
  "nat \<Rightarrow> nat \<Rightarrow> nat \<Rightarrow> rpoint \<Rightarrow> rgb \<Rightarrow> agg_state \<Rightarrow> error + agg_state" where
  "add_sample img_idx x y p c st =
     (let point_hash = hash_point p 100 in
      bindE (item (image_points2D st) img_idx) (\<lambda>kps.
        let st' =
          (case point_indices st point_hash of
             None \<Rightarrow>
               st\<lparr>points3D := points3D st @
                      [\<lparr>pid = length (points3D st), xyz = p, color = c, err = 1,
                        track = [(img_idx, length kps)]\<rparr>],
                  point_indices := (point_indices st)(point_hash \<mapsto> length (points3D st))\<rparr>
           | Some point_idx \<Rightarrow>
               st\<lparr>points3D := (points3D st)
                      [point_idx := (points3D st ! point_idx)
                         \<lparr>track := track (points3D st ! point_idx) @ [(img_idx, length kps)]\<rparr>]\<rparr>)
        in case point_indices st' point_hash of
             None \<Rightarrow> Inl KeyError
           | Some i \<Rightarrow>
               Inr (st'\<lparr>image_points2D :=
                          (image_points2D st')[img_idx := kps @ [(x, y, i)]]\<rparr>)))"

text \<open>
  Lines 158 to 177: what happens to a sample that passed the confidence test. The
  result is \<open>None\<close> when the sample is skipped, the point and its colour when it is kept.
\<close>

definition examine ::
  "flags \<Rightarrow> point list list \<Rightarrow> rgb list list \<Rightarrow> nat \<Rightarrow> nat
     \<Rightarrow> error + (rpoint \<times> rgb) option" where
  "examine fl g orig_img y x =
     (case shape2 g of (h, w) \<Rightarrow> case shape2 orig_img of (orig_h, orig_w) \<Rightarrow>
      let scale_y = real orig_h / real h; scale_x = real orig_w / real w in
      bindE (item g y) (\<lambda>row. bindE (item row x) (\<lambda>point3D.
        case finite_point point3D of
          None \<Rightarrow> Inr None
        | Some p \<Rightarrow>
            let orig_y = min \<lfloor>real y * scale_y\<rfloor> (int orig_h - 1);
                orig_x = min \<lfloor>real x * scale_x\<rfloor> (int orig_w - 1)
            in bindE (item_int orig_img orig_y) (\<lambda>orow. bindE (item_int orow orig_x) (\<lambda>c.
                 if mask_sky fl \<and> is_sky_point p c then Inr None
                 else if mask_black_bg fl \<and> is_black_bg_point c then Inr None
                 else if mask_white_bg fl \<and> is_white_bg_point c then Inr None
                 else Inr (Some (p, c)))))))"

text \<open>Lines 157 to 201: one visited grid position of image \<open>img_idx\<close>.\<close>

definition visit ::
  "flags \<Rightarrow> fl \<Rightarrow> fl list list list \<Rightarrow> point list list \<Rightarrow> rgb list list \<Rightarrow> nat
     \<Rightarrow> nat \<Rightarrow> nat \<Rightarrow> agg_state \<Rightarrow> error + agg_state" where
  "visit fl conf_threshold confidences g orig_img img_idx y x st =
     bindE (item confidences img_idx) (\<lambda>cg. bindE (item cg y) (\<lambda>crow. bindE (item crow x) (\<lambda>conf.
       if fl_gt conf conf_threshold then
         bindE (examine fl g orig_img y x) (\<lambda>r.
           case r of None \<Rightarrow> Inr st | Some (p, c) \<Rightarrow> add_sample img_idx x y p c st)
       else Inr st)))"

text \<open>Lines 147 to 201: one image, the two strided loops over its grid.\<close>

definition scan_image ::
  "flags \<Rightarrow> fl \<Rightarrow> int \<Rightarrow> predictions \<Rightarrow> nat \<Rightarrow> agg_state \<Rightarrow> error + agg_state" where
  "scan_image fl conf_threshold stride preds img_idx st =
     (let g = world_points_from_depth preds ! img_idx in
      case shape2 g of (h, w) \<Rightarrow>
      bindE (item (original_images preds) img_idx) (\<lambda>orig_img.
        if h = 0 \<or> w = 0 then Inl ZeroDivisionError
        else bindE (py_range h stride) (\<lambda>ys. bindE (py_range w stride) (\<lambda>xs.
          foldE (\<lambda>y. foldE (\<lambda>x. visit fl conf_threshold (depth_conf preds) g orig_img
                                   img_idx y x) xs) ys st))))"

text \<open>
  The grid positions \<open>(y, x)\<close> that the two loops of lines 155 and 156 visit on a grid of
  \<open>h\<close> rows and \<open>w\<close> columns, in the order of the visits.
\<close>

definition visited :: "nat \<Rightarrow> nat \<Rightarrow> int \<Rightarrow> error + (nat \<times> nat) list" where
  "visited h w stride =
     bindE (py_range h stride) (\<lambda>ys. bindE (py_range w stride) (\<lambda>xs.
       Inr (List.product ys xs)))"

text \<open>Lines 129 and 130: the absolute cutoff.\<close>

definition cutoff :: "predictions \<Rightarrow> real \<Rightarrow> error + fl" where
  "cutoff preds conf_threshold =
     bindE (np_max (depth_conf preds)) (\<lambda>max_conf.
       Inr (fl_times (conf_threshold / 100) max_conf))"

definition init_state :: "predictions \<Rightarrow> agg_state" where
  "init_state preds =
     \<lparr>points3D = [], point_indices = Map.empty,
      image_points2D = replicate (length (depth preds)) []\<rparr>"

definition filter_and_prepare_points ::
  "predictions \<Rightarrow> real \<Rightarrow> flags \<Rightarrow> int \<Rightarrow> error + point_entry list \<times> keypoint list list" where
  "filter_and_prepare_points preds conf_threshold fl stride =
     bindE (cutoff preds conf_threshold) (\<lambda>thr.
       bindE (foldE (scan_image fl thr stride preds)
                [0..<length (world_points_from_depth preds)] (init_state preds))
         (\<lambda>st. Inr (points3D st, image_points2D st)))"

text \<open>\<open>confidences[img_idx, y, x]\<close> on the confidences of the predictions (lines 143, 157).\<close>

definition confidence_at :: "predictions \<Rightarrow> nat \<Rightarrow> nat \<Rightarrow> nat \<Rightarrow> error + fl" where
  "confidence_at preds img_idx y x =
     bindE (item (depth_conf preds) img_idx) (\<lambda>cg. bindE (item cg y) (\<lambda>crow. item crow x))"


section \<open>Pose converter\<close>

text \<open>A loop that builds a list, one element per iteration, unless an iteration raises.\<close>

fun mapE :: "('a \<Rightarrow> error + 'b) \<Rightarrow> 'a list \<Rightarrow> error + 'b list" where
  "mapE f [] = Inr []"
| "mapE f (x # xs) =
     (case f x of Inl e \<Rightarrow> Inl e
      | Inr y \<Rightarrow> (case mapE f xs of Inl e \<Rightarrow> Inl e | Inr ys \<Rightarrow> Inr (y # ys)))"


type_synonym quaternion = "real \<times> real \<times> real \<times> real"

text \<open>
  \<open>extrinsic_to_colmap_format\<close>. The library call \<open>Rotation.from_matrix(R).as_quat()\<close> is
  the parameter \<open>as_quat\<close>; it returns the components in the order x, y, z, w, or raises.
  \<open>R\<close> is the slice \<open>[:3, :3]\<close> and \<open>t\<close> the slice \<open>[:3, 3]\<close> of the extrinsic matrix;
  \<open>wxyz\<close> is line 95, which builds \<open>[quat[3], quat[0], quat[1], quat[2]]\<close>.
\<close>

definition wxyz :: "quaternion \<Rightarrow> quaternion" where
  "wxyz quat = (case quat of (q0, q1, q2, q3) \<Rightarrow> (q3, q0, q1, q2))"

definition pose_of ::
  "(matrix \<Rightarrow> error + quaternion) \<Rightarrow> matrix \<Rightarrow> error + quaternion \<times> real list" where
  "pose_of as_quat e =
     (let R = map (take 3) (take 3 e) in
      bindE (mapE (\<lambda>row. item row 3) (take 3 e)) (\<lambda>t.
        bindE (as_quat R) (\<lambda>quat. Inr (wxyz quat, t))))"

definition extrinsic_to_colmap_format ::
  "(matrix \<Rightarrow> error + quaternion) \<Rightarrow> matrix list
     \<Rightarrow> error + quaternion list \<times> real list list" where
  "extrinsic_to_colmap_format as_quat extrinsics =
     bindE (mapE (pose_of as_quat) extrinsics) (\<lambda>qts. Inr (map fst qts, map snd qts))"

section \<open>Format writers\<close>









subsection \<open>Text\<close>










subsection \<open>Binary\<close>









subsection \<open>Orchestration\<close>




section \<open>The persisted data model and its two readings\<close>




record point3D =
  pt_id :: nat
  pt_xyz :: rpoint
  pt_rgb :: "nat \<times> nat \<times> nat"
  pt_error :: real
  pt_track :: "(nat \<times> nat) list"



subsection \<open>Text\<close>














subsection \<open>Binary\<close>

















section \<open>Invariants of the aggregation state\<close>

text \<open>
  The track entries of all points, in storage order; what it means for a track entry
  to resolve to a keypoint that refers back to point \<open>j\<close>; and the properties that
  every step of the aggregator keeps.
\<close>

definition all_tracks :: "point_entry list \<Rightarrow> (nat \<times> nat) list" where
  "all_tracks pts = concat (map track pts)"

definition inv_ids :: "agg_state \<Rightarrow> bool" where
  "inv_ids st \<longleftrightarrow> (\<forall>j<length (points3D st). pid (points3D st ! j) = j)"

definition inv_idx :: "agg_state \<Rightarrow> bool" where
  "inv_idx st \<longleftrightarrow> (\<forall>h k. point_indices st h = Some k \<longrightarrow> k < length (points3D st))"

definition refers :: "keypoint list list \<Rightarrow> nat \<times> nat \<Rightarrow> nat \<Rightarrow> bool" where
  "refers kps e j \<longleftrightarrow>
     (case e of (i, k) \<Rightarrow>
        i < length kps \<and> k < length (kps ! i) \<and> snd (snd (kps ! i ! k)) = j)"

definition inv_track :: "agg_state \<Rightarrow> bool" where
  "inv_track st \<longleftrightarrow>
     (\<forall>j<length (points3D st). \<forall>e\<in>set (track (points3D st ! j)).
        refers (image_points2D st) e j)"

definition inv_count :: "agg_state \<Rightarrow> bool" where
  "inv_count st \<longleftrightarrow>
     (\<forall>i k. count_list (all_tracks (points3D st)) (i, k) =
        (if i < length (image_points2D st) \<and> k < length (image_points2D st ! i) then 1 else 0))"

definition inv_card :: "agg_state \<Rightarrow> bool" where
  "inv_card st \<longleftrightarrow>
     finite (dom (point_indices st)) \<and> card (dom (point_indices st)) = length (points3D st)"

definition consistent :: "agg_state \<Rightarrow> bool" where
  "consistent st \<longleftrightarrow> inv_ids st \<and> inv_idx st \<and> inv_track st \<and> inv_count st \<and> inv_card st"

text \<open>
  The grid position \<open>(y, x)\<close> of a keypoint \<open>(x, y, point)\<close>, the order in which the loops
  reach grid positions (rows first, then columns), and a keypoint list whose positions
  strictly ascend in that order.
\<close>

definition kp_pos :: "keypoint \<Rightarrow> nat \<times> nat" where
  "kp_pos k = (case k of (x, y, p) \<Rightarrow> (y, x))"

definition visited_before :: "nat \<times> nat \<Rightarrow> nat \<times> nat \<Rightarrow> bool" where
  "visited_before a b \<longleftrightarrow> fst a < fst b \<or> fst a = fst b \<and> snd a < snd b"

definition in_visit_order :: "keypoint list \<Rightarrow> bool" where
  "in_visit_order kl = sorted_wrt (\<lambda>a b. visited_before (kp_pos a) (kp_pos b)) kl"

text \<open>
  What holds while image \<open>i\<close> is being walked, with the positions \<open>ps\<close> still to come
  and \<open>K0\<close> the keypoint lists at the start of the image; and what holds before image
  \<open>m\<close> is walked.
\<close>

definition walk_inv ::
  "nat \<Rightarrow> keypoint list list \<Rightarrow> (nat \<times> nat) list \<Rightarrow> agg_state \<Rightarrow> bool" where
  "walk_inv i K0 ps st \<longleftrightarrow>
     length (image_points2D st) = length K0
     \<and> (\<forall>j<length K0. j \<noteq> i \<longrightarrow> image_points2D st ! j = K0 ! j)
     \<and> (i < length K0 \<longrightarrow> in_visit_order (image_points2D st ! i)
          \<and> (\<forall>k\<in>set (image_points2D st ! i). \<forall>a\<in>set ps. visited_before (kp_pos k) a))"

definition images_inv :: "nat \<Rightarrow> nat \<Rightarrow> agg_state \<Rightarrow> bool" where
  "images_inv N m st \<longleftrightarrow>
     length (image_points2D st) = N
     \<and> (\<forall>j<N. (j < m \<longrightarrow> in_visit_order (image_points2D st ! j))
              \<and> (m \<le> j \<longrightarrow> image_points2D st ! j = []))"

text \<open>
  How the state of a run at a lower threshold relates to the state of a run at a higher
  one after the same visits: the higher run knows no hash the lower run does not know.
\<close>

definition fewer_keys :: "agg_state \<Rightarrow> agg_state \<Rightarrow> bool" where
  "fewer_keys s1 s2 \<longleftrightarrow>
     dom (point_indices s2) \<subseteq> dom (point_indices s1)
     \<and> length (image_points2D s2) = length (image_points2D s1)"

section \<open>Example inputs\<close>

definition no_flags :: flags where
  "no_flags = \<lparr>mask_sky = False, mask_black_bg = False, mask_white_bg = False\<rparr>"

text \<open>One image, a grid of one row and two columns, every confidence 1.\<close>

definition pair_scene :: "point \<Rightarrow> point \<Rightarrow> rgb \<Rightarrow> predictions" where
  "pair_scene a b c =
     \<lparr>depth = [[[1, 1]]], depth_conf = [[[Finite 1, Finite 1]]],
      world_points_from_depth = [[[a, b]]],
      original_images = [[[c, c]]], intrinsic = [], extrinsic = []\<rparr>"

text \<open>One image with a single grid position.\<close>

definition single_scene :: "real \<Rightarrow> point \<Rightarrow> rgb \<Rightarrow> predictions" where
  "single_scene conf a c =
     \<lparr>depth = [[[1]]], depth_conf = [[[Finite conf]]],
      world_points_from_depth = [[[a]]],
      original_images = [[[c]]], intrinsic = [], extrinsic = []\<rparr>"

definition sky_only :: flags where
  "sky_only = \<lparr>mask_sky = True, mask_black_bg = False, mask_white_bg = False\<rparr>"


section \<open>Properties of the aggregator\<close>

lemma is_white_bg_point_code [code]:
  "is_white_bg_point c = (np_mean c > 230 \<and> np_var c < 225)"
proof -
  have "np_std c = sqrt (np_var c)"
    by (simp add: np_std_def np_var_def split: prod.splits)
  moreover have "(sqrt (np_var c) < 15) = (np_var c < 225)"
    using real_sqrt_less_iff [of "np_var c" 225] by simp
  ultimately show ?thesis by (simp add: is_white_bg_point_def)
qed

subsection \<open>One accepted sample\<close>

lemma add_sample_new:
  assumes "point_indices st (hash_point p 100) = None" "i < length (image_points2D st)"
  shows "add_sample i x y p c st =
    Inr \<lparr>points3D = points3D st @
           [\<lparr>pid = length (points3D st), xyz = p, color = c, err = 1,
             track = [(i, length (image_points2D st ! i))]\<rparr>],
         point_indices = (point_indices st)(hash_point p 100 \<mapsto> length (points3D st)),
         image_points2D = (image_points2D st)
           [i := image_points2D st ! i @ [(x, y, length (points3D st))]]\<rparr>"
  using assms by (simp add: add_sample_def bindE_def item_def Let_def)

lemma add_sample_old:
  assumes "point_indices st (hash_point p 100) = Some k" "i < length (image_points2D st)"
  shows "add_sample i x y p c st =
    Inr \<lparr>points3D = (points3D st)
           [k := (points3D st ! k)
              \<lparr>track := track (points3D st ! k) @ [(i, length (image_points2D st ! i))]\<rparr>],
         point_indices = point_indices st,
         image_points2D = (image_points2D st)
           [i := image_points2D st ! i @ [(x, y, k)]]\<rparr>"
  using assms by (simp add: add_sample_def bindE_def item_def Let_def)

lemma add_sample_raises:
  "\<not> i < length (image_points2D st) \<Longrightarrow> add_sample i x y p c st = Inl IndexError"
  by (simp add: add_sample_def bindE_def item_def Let_def)

lemma all_tracks_snoc: "all_tracks (pts @ [e]) = all_tracks pts @ track e"
  by (simp add: all_tracks_def)

lemma count_all_tracks_update:
  "k < length pts \<Longrightarrow>
   count_list (all_tracks (pts[k := (pts ! k)\<lparr>track := track (pts ! k) @ [e]\<rparr>])) a =
   count_list (all_tracks pts) a + (if a = e then 1 else 0)"
proof (induction pts arbitrary: k)
  case Nil
  then show ?case by simp
next
  case (Cons q pts)
  show ?case
  proof (cases k)
    case 0
    then show ?thesis by (simp add: all_tracks_def)
  next
    case (Suc m)
    with Cons.prems have "m < length pts" by simp
    from Cons.IH [OF this] Suc show ?thesis by (simp add: all_tracks_def)
  qed
qed


lemma add_sample_cases:
  assumes "add_sample i x y p c st = Inr st'"
  obtains
    (new) "point_indices st (hash_point p 100) = None" "i < length (image_points2D st)"
      "st' = \<lparr>points3D = points3D st @
           [\<lparr>pid = length (points3D st), xyz = p, color = c, err = 1,
             track = [(i, length (image_points2D st ! i))]\<rparr>],
         point_indices = (point_indices st)(hash_point p 100 \<mapsto> length (points3D st)),
         image_points2D = (image_points2D st)
           [i := image_points2D st ! i @ [(x, y, length (points3D st))]]\<rparr>"
  | (old) k where "point_indices st (hash_point p 100) = Some k" "i < length (image_points2D st)"
      "st' = \<lparr>points3D = (points3D st)
           [k := (points3D st ! k)
              \<lparr>track := track (points3D st ! k) @ [(i, length (image_points2D st ! i))]\<rparr>],
         point_indices = point_indices st,
         image_points2D = (image_points2D st)
           [i := image_points2D st ! i @ [(x, y, k)]]\<rparr>"
proof -
  have i: "i < length (image_points2D st)"
    using assms add_sample_raises [of i st x y p c] by (cases "i < length (image_points2D st)") auto
  show thesis
  proof (cases "point_indices st (hash_point p 100)")
    case None
    with add_sample_new [OF None i, of x y c] assms i new show ?thesis by simp
  next
    case (Some k)
    with add_sample_old [OF Some i, of x y c] assms i old show ?thesis by simp
  qed
qed

lemma inv_ids_add_sample:
  assumes "inv_ids st" "inv_idx st" "add_sample i x y p c st = Inr st'"
  shows "inv_ids st'"
  using assms(3)
proof (cases rule: add_sample_cases)
  case new
  with assms(1) show ?thesis by (auto simp: inv_ids_def nth_append)
next
  case (old k)
  with assms(1,2) show ?thesis by (auto simp: inv_ids_def inv_idx_def nth_list_update)
qed

lemma inv_idx_add_sample:
  assumes "inv_idx st" "add_sample i x y p c st = Inr st'"
  shows "inv_idx st'"
  using assms(2)
proof (cases rule: add_sample_cases)
  case new
  with assms(1) show ?thesis by (auto simp: inv_idx_def less_Suc_eq)
next
  case (old k)
  with assms(1) show ?thesis by (auto simp: inv_idx_def)
qed

lemma inv_card_add_sample:
  assumes "inv_card st" "add_sample i x y p c st = Inr st'"
  shows "inv_card st'"
  using assms(2)
proof (cases rule: add_sample_cases)
  case new
  with assms(1) show ?thesis by (auto simp: inv_card_def domIff)
next
  case (old k)
  with assms(1) show ?thesis by (auto simp: inv_card_def)
qed

lemma refers_grow:
  assumes "refers kps e j" "i < length kps"
  shows "refers (kps[i := kps ! i @ [kp]]) e j"
  using assms by (cases e) (auto simp: refers_def nth_list_update nth_append)

lemma refers_last:
  assumes "i < length kps"
  shows "refers (kps[i := kps ! i @ [(x, y, j)]]) (i, length (kps ! i)) j"
  using assms by (simp add: refers_def)

lemma inv_track_add_sample:
  assumes "inv_track st" "inv_idx st" "add_sample i x y p c st = Inr st'"
  shows "inv_track st'"
  using assms(3)
proof (cases rule: add_sample_cases)
  case new
  with assms(1) show ?thesis 
    by (auto simp: inv_track_def nth_append refers_grow refers_last less_Suc_eq)
next
  case (old k)
  from old(1) assms(2) have "k < length (points3D st)" by (auto simp: inv_idx_def)
  with old assms(1) show ?thesis 
    by (auto simp: inv_track_def nth_list_update refers_grow refers_last)
qed

lemma inv_count_add_sample:
  assumes "inv_count st" "inv_idx st" "add_sample i x y p c st = Inr st'"
  shows "inv_count st'"
  using assms(3)
proof (cases rule: add_sample_cases)
  case new
  with assms(1) show ?thesis 
    by (auto simp: inv_count_def all_tracks_snoc nth_list_update less_Suc_eq)
next
  case (old k)
  from old(1) assms(2) have "k < length (points3D st)" by (auto simp: inv_idx_def)
  with old assms(1) show ?thesis 
    by (auto simp: inv_count_def count_all_tracks_update nth_list_update less_Suc_eq)
qed


lemma consistent_add_sample:
  "consistent st \<Longrightarrow> add_sample i x y p c st = Inr st' \<Longrightarrow> consistent st'"
  unfolding consistent_def
  by (blast intro: inv_ids_add_sample inv_idx_add_sample inv_track_add_sample
      inv_count_add_sample inv_card_add_sample)

lemma bindE_Inr:
  "bindE m f = Inr b \<Longrightarrow> \<exists>a. m = Inr a \<and> f a = Inr b"
  by (cases m) (simp_all add: bindE_def)

lemma foldE_invariant:
  assumes "\<And>a s s'. P s \<Longrightarrow> f a s = Inr s' \<Longrightarrow> P s'"
  shows "P s \<Longrightarrow> foldE f as s = Inr s' \<Longrightarrow> P s'"
proof (induction as arbitrary: s)
  case Nil
  then show ?case by simp
next
  case (Cons a as)
  from Cons.prems(2) obtain s1 where s1: "f a s = Inr s1" "foldE f as s1 = Inr s'"
    by (cases "f a s") simp_all
  from assms [OF Cons.prems(1) s1(1)] have "P s1" .
  from Cons.IH [OF this s1(2)] show ?case .
qed

lemma visit_effect:
  assumes "visit fl thr confs g orig_img i y x st = Inr st'"
  shows "st' = st \<or> (\<exists>p c. add_sample i x y p c st = Inr st')"
proof -
  from assms obtain cg crow conf where
    r: "(if fl_gt conf thr then
         bindE (examine fl g orig_img y x) (\<lambda>r.
           case r of None \<Rightarrow> Inr st | Some (p, c) \<Rightarrow> add_sample i x y p c st)
       else Inr st) = Inr st'"
    unfolding visit_def by (blast dest!: bindE_Inr)
  show ?thesis
  proof (cases "fl_gt conf thr")
    case True
    with r obtain res where
      "(case res of None \<Rightarrow> Inr st | Some (p, c) \<Rightarrow> add_sample i x y p c st) = Inr st'"
      by (auto dest!: bindE_Inr)
    then show ?thesis by (cases res) auto
  next
    case False
    with r show ?thesis by simp
  qed
qed

lemma visit_preserves:
  assumes "\<And>p c s s'. P s \<Longrightarrow> add_sample i x y p c s = Inr s' \<Longrightarrow> P s'"
    and "P st" "visit fl thr confs g orig_img i y x st = Inr st'"
  shows "P st'"
  using visit_effect [OF assms(3)] assms(1,2) by blast

lemma scan_image_effect:
  assumes "scan_image fl thr stride preds i st = Inr st'"
  obtains orig_img ys xs where
    "py_range (fst (shape2 (world_points_from_depth preds ! i))) stride = Inr ys"
    "py_range (snd (shape2 (world_points_from_depth preds ! i))) stride = Inr xs"
    "foldE (\<lambda>y. foldE (\<lambda>x. visit fl thr (depth_conf preds)
        (world_points_from_depth preds ! i) orig_img i y x) xs) ys st = Inr st'"
  using assms unfolding scan_image_def Let_def
  by (auto split: prod.splits if_splits dest!: bindE_Inr)

lemma scan_image_preserves:
  assumes "\<And>x y p c s s'. P s \<Longrightarrow> add_sample i x y p c s = Inr s' \<Longrightarrow> P s'"
    and "P st" "scan_image fl thr stride preds i st = Inr st'"
  shows "P st'"
  using assms(3)
proof (cases rule: scan_image_effect)
  case (1 orig_img ys xs)
  have inner: "P s \<Longrightarrow> foldE (\<lambda>x. visit fl thr (depth_conf preds)
        (world_points_from_depth preds ! i) orig_img i y x) xs s = Inr s' \<Longrightarrow> P s'" for y s s'
    by (rule foldE_invariant [where P = P]) (rule visit_preserves [where P = P], rule assms(1))
  show ?thesis
    by (rule foldE_invariant [where P = P, OF _ assms(2) 1(3)]) (rule inner)
qed

lemma consistent_init: "consistent (init_state preds)"
  by (simp add: consistent_def init_state_def inv_ids_def inv_idx_def inv_track_def
      inv_count_def inv_card_def all_tracks_def)

lemma run_effect:
  assumes "filter_and_prepare_points preds pct fl stride = Inr (pts, kps)"
  obtains thr st where "cutoff preds pct = Inr thr"
    "foldE (scan_image fl thr stride preds) [0..<length (world_points_from_depth preds)]
       (init_state preds) = Inr st"
    "pts = points3D st" "kps = image_points2D st"
  using assms unfolding filter_and_prepare_points_def
  by (auto dest!: bindE_Inr)

lemma run_consistent:
  assumes "filter_and_prepare_points preds pct fl stride = Inr (pts, kps)"
  shows "\<exists>st. consistent st \<and> pts = points3D st \<and> kps = image_points2D st"
  using assms
proof (cases rule: run_effect)
  case (1 thr st)
  have "consistent st"
    by (rule foldE_invariant [where P = consistent, OF _ consistent_init 1(2)])
       (rule scan_image_preserves [where P = consistent], rule consistent_add_sample)
  with 1 show ?thesis by blast
qed

subsection \<open>Track and keypoint consistency\<close>

text \<open>
  Claim C3. After a run that returns, every track entry \<open>(i, k)\<close> of every point names an
  existing keypoint \<open>k\<close> of image \<open>i\<close> whose stored point reference is that point's id, and
  every keypoint of every image occurs exactly once among the track entries of all points.
\<close>

theorem track_keypoint_consistency:
  assumes "filter_and_prepare_points preds conf_threshold fl stride = Inr (pts, kps)"
  shows "(\<forall>q\<in>set pts. \<forall>(i, k)\<in>set (track q).
            i < length kps \<and> k < length (kps ! i) \<and> snd (snd (kps ! i ! k)) = pid q)
       \<and> (\<forall>i<length kps. \<forall>k<length (kps ! i).
            count_list (concat (map track pts)) (i, k) = 1)"
proof -
  from run_consistent [OF assms] obtain st where
    st: "consistent st" "pts = points3D st" "kps = image_points2D st" by blast
  have "i < length kps \<and> k < length (kps ! i) \<and> snd (snd (kps ! i ! k)) = pid q"
    if "q \<in> set pts" "(i, k) \<in> set (track q)" for q i k
  proof -
    from that(1) obtain j where j: "j < length pts" "q = pts ! j"
      by (auto simp: in_set_conv_nth)
    with st have "pid q = j" by (simp add: consistent_def inv_ids_def)
    moreover from st j that(2) have "refers kps (i, k) j"
      by (auto simp: consistent_def inv_track_def)
    ultimately show ?thesis by (simp add: refers_def)
  qed
  moreover have "count_list (concat (map track pts)) (i, k) = 1"
    if "i < length kps" "k < length (kps ! i)" for i k
    using st that by (simp add: consistent_def inv_count_def all_tracks_def)
  ultimately show ?thesis by blast
qed

theorem track_keypoint_consistency_witness:
  "filter_and_prepare_points
     (pair_scene (Finite 0, Finite 0, Finite 0) (Finite (1 / 1000), Finite 0, Finite 0)
        (128, 128, 128)) 0 no_flags 1 =
   Inr ([\<lparr>pid = 0, xyz = (0, 0, 0), color = (128, 128, 128), err = 1,
          track = [(0, 0), (0, 1)]\<rparr>],
        [[(0, 0, 0), (1, 0, 0)]])
   \<and> count_list (concat (map track [\<lparr>pid = 0, xyz = (0 :: real, 0 :: real, 0 :: real),
          color = (128 :: 8 word, 128 :: 8 word, 128 :: 8 word), err = 1 :: real,
          track = [(0 :: nat, 0 :: nat), (0, 1)]\<rparr>])) (0, 1) = 1"
proof -
  have run: "filter_and_prepare_points
     (pair_scene (Finite 0, Finite 0, Finite 0) (Finite (1 / 1000), Finite 0, Finite 0)
        (128, 128, 128)) 0 no_flags 1 =
   Inr ([\<lparr>pid = 0, xyz = (0, 0, 0), color = (128, 128, 128), err = 1,
          track = [(0, 0), (0, 1)]\<rparr>],
        [[(0, 0, 0), (1, 0, 0)]])"
    by code_simp
  have i: "(0 :: nat) < length [[(0 :: nat, 0 :: nat, 0 :: nat), (1, 0, 0)]]" by simp
  have k: "(1 :: nat) < length ([[(0 :: nat, 0 :: nat, 0 :: nat), (1, 0, 0)]] ! 0)" by simp
  note c = track_keypoint_consistency [OF run, THEN conjunct2, rule_format, OF i k]
  from run c show ?thesis by (rule conjI)
qed

subsection \<open>Deduplication by the hash of the quantized position\<close>

text \<open>
  Claim C1 asks that two accepted samples get the same point id exactly when their
  coordinates, times 100 and rounded, are the same integer triple. The dictionary is
  keyed by the built-in hash of the triple, and \<open>hash(-1) = hash(-2) = -2\<close>: the samples
  at \<open>(-0.01, 0, 0)\<close> and \<open>(-0.02, 0, 0)\<close> have the triples \<open>(-1, 0, 0)\<close> and \<open>(-2, 0, 0)\<close>
  and are merged into the single point 0.
\<close>

theorem quantization_collision:
  "filter_and_prepare_points
     (pair_scene (Finite (- 1 / 100), Finite 0, Finite 0) (Finite (- 2 / 100), Finite 0, Finite 0)
        (128, 128, 128)) 0 no_flags 1 =
   Inr ([\<lparr>pid = 0, xyz = (- 1 / 100, 0, 0), color = (128, 128, 128), err = 1,
          track = [(0, 0), (0, 1)]\<rparr>],
        [[(0, 0, 0), (1, 0, 0)]])
   \<and> quantized (- 1 / 100, 0, 0) 100 = [- 1, 0, 0]
   \<and> quantized (- 2 / 100, 0, 0) 100 = [- 2, 0, 0]"
  by code_simp

subsection \<open>The sky test\<close>

text \<open>
  Claim C9. A point is classified as sky exactly when its second coordinate exceeds 1 and
  its blue channel exceeds 1.2 times the red and 1.2 times the green channel. With the
  sky filter on, a point at height 2 with colour (10, 10, 200) is dropped by the
  aggregator, and the same point with colour (10, 10, 11) is not sky and is kept.
\<close>

theorem sky_predicate:
  "(is_sky_point (px, py, pz) (r, g, b) \<longleftrightarrow>
      py > 1 \<and> real (unat b) > 12 / 10 * real (unat r)
             \<and> real (unat b) > 12 / 10 * real (unat g))
   \<and> is_sky_point (px, 2, pz) (10, 10, 200)
   \<and> \<not> is_sky_point (px, 2, pz) (10, 10, 11)
   \<and> filter_and_prepare_points
        (single_scene 1 (Finite 0, Finite 2, Finite 0) (10, 10, 200)) 0 sky_only 1
      = Inr ([], [[]])
   \<and> filter_and_prepare_points
        (single_scene 1 (Finite 0, Finite 2, Finite 0) (10, 10, 11)) 0 sky_only 1
      = Inr ([\<lparr>pid = 0, xyz = (0, 2, 0), color = (10, 10, 11), err = 1, track = [(0, 0)]\<rparr>],
             [[(0, 0, 0)]])"
proof -
  have a: "is_sky_point (px, py, pz) (r, g, b) \<longleftrightarrow>
      py > 1 \<and> real (unat b) > 12 / 10 * real (unat r)
             \<and> real (unat b) > 12 / 10 * real (unat g)"
    by (simp add: is_sky_point_def)
  have b: "is_sky_point (px, 2, pz) (10, 10, 200)"
    by (simp add: is_sky_point_def)
  have c: "\<not> is_sky_point (px, 2, pz) (10, 10, 11)"
    by (simp add: is_sky_point_def)
  have d: "filter_and_prepare_points
        (single_scene 1 (Finite 0, Finite 2, Finite 0) (10, 10, 200)) 0 sky_only 1
      = Inr ([], [[]])"
    by code_simp
  have e: "filter_and_prepare_points
        (single_scene 1 (Finite 0, Finite 2, Finite 0) (10, 10, 11)) 0 sky_only 1
      = Inr ([\<lparr>pid = 0, xyz = (0, 2, 0), color = (10, 10, 11), err = 1, track = [(0, 0)]\<rparr>],
             [[(0, 0, 0)]])"
    by code_simp
  from a b c d e show ?thesis by (intro conjI)
qed

subsection \<open>The strided walk over a grid\<close>

lemma foldE_append:
  "foldE f (as @ bs) s = bindE (foldE f as s) (foldE f bs)"
  by (induction as arbitrary: s) (auto simp: bindE_def split: sum.splits)

lemma foldE_map: "foldE f (map g as) s = foldE (\<lambda>a. f (g a)) as s"
  by (induction as arbitrary: s) (auto split: sum.splits)

lemma foldE_product:
  "foldE (\<lambda>y. foldE (f y) xs) ys s = foldE (\<lambda>(y, x). f y x) (List.product ys xs) s"
proof (induction ys arbitrary: s)
  case Nil
  then show ?case by simp
next
  case (Cons y ys)
  show ?case
    by (cases "foldE (f y) xs s") (simp_all add: foldE_append foldE_map bindE_def Cons.IH)
qed


lemma py_range_pos:
  "0 < s \<Longrightarrow> py_range n s = Inr (map (\<lambda>k. k * nat s) [0..<(n + nat s - 1) div nat s])"
  by (simp add: py_range_def)

lemma range_bound:
  assumes "0 < (s :: nat)"
  shows "k < (n + s - 1) div s \<longleftrightarrow> k * s < n"
proof -
  have e: "Suc k * s = k * s + s" by simp
  have "k < (n + s - 1) div s \<longleftrightarrow> Suc k \<le> (n + s - 1) div s" by (simp add: Suc_le_eq)
  also have "\<dots> \<longleftrightarrow> Suc k * s \<le> n + s - 1"
    using assms by (rule less_eq_div_iff_mult_less_eq)
  also have "\<dots> \<longleftrightarrow> k * s < n" unfolding e using assms by linarith
  finally show ?thesis .
qed

lemma set_py_range:
  assumes "0 < s" "py_range n s = Inr ys"
  shows "set ys = {y. y < n \<and> nat s dvd y}"
proof -
  from assms have ys: "ys = map (\<lambda>k. k * nat s) [0..<(n + nat s - 1) div nat s]"
    by (simp add: py_range_pos)
  have s: "0 < nat s" using assms(1) by simp
  show ?thesis
  proof (rule set_eqI, rule iffI)
    fix y assume "y \<in> set ys"
    then obtain k where k: "k < (n + nat s - 1) div nat s" "y = k * nat s"
      unfolding ys by auto
    from k(1) have "k * nat s < n" by (simp only: range_bound [OF s])
    with k(2) show "y \<in> {y. y < n \<and> nat s dvd y}" by simp
  next
    fix y assume "y \<in> {y. y < n \<and> nat s dvd y}"
    then obtain k where k: "y < n" "y = k * nat s" by (auto simp: dvd_def mult.commute)
    then have "k < (n + nat s - 1) div nat s" by (simp only: range_bound [OF s])
    with k(2) show "y \<in> set ys" unfolding ys by auto
  qed
qed

lemma distinct_py_range:
  assumes "0 < s" "py_range n s = Inr ys"
  shows "distinct ys"
proof -
  from assms have ys: "ys = map (\<lambda>k. k * nat s) [0..<(n + nat s - 1) div nat s]"
    by (simp add: py_range_pos)
  have "inj (\<lambda>k. k * nat s)" using assms(1) by (intro injI) simp
  then have "inj_on (\<lambda>k. k * nat s) (set [0..<(n + nat s - 1) div nat s])"
    by (rule inj_on_subset) simp
  then show ?thesis unfolding ys by (simp only: distinct_map distinct_upt simp_thms)
qed

lemma sorted_py_range:
  assumes "py_range n s = Inr ys"
  shows "sorted_wrt (<) ys"
proof (cases "0 < s")
  case True
  with assms have ys: "ys = map (\<lambda>k. k * nat s) [0..<(n + nat s - 1) div nat s]"
    by (simp add: py_range_pos)
  have "sorted_wrt (\<lambda>a b. a * nat s < b * nat s) [0..<(n + nat s - 1) div nat s]"
    using True by (simp add: sorted_wrt_iff_nth_less)
  then show ?thesis unfolding ys by (simp only: sorted_wrt_map)
next
  case False
  with assms have "ys = []" by (auto simp: py_range_def split: if_splits)
  then show ?thesis by simp
qed

lemma ceil_div:
  assumes "0 < (s :: nat)"
  shows "(n + s - 1) div s = nat \<lceil>real n / real s\<rceil>"
proof -
  define q where "q = (n + s - 1) div s"
  have "\<not> q * s < n"
    using range_bound [OF assms, of q n] unfolding q_def by blast
  then have "real n \<le> real (q * s)" by (simp only: of_nat_le_iff not_less)
  then have hi: "real n / real s \<le> real q"
    using assms by (simp add: pos_divide_le_eq)
  have lo: "real q - 1 < real n / real s"
  proof (cases q)
    case 0
    have "0 \<le> real n / real s" by simp
    then have "- 1 < real n / real s" by linarith
    with 0 show ?thesis by simp
  next
    case (Suc k)
    then have "k < (n + s - 1) div s" unfolding q_def by simp
    then have "k * s < n" by (simp only: range_bound [OF assms])
    then have "real (k * s) < real n" by (simp only: of_nat_less_iff)
    then have "real k < real n / real s"
      using assms by (simp add: pos_less_divide_eq)
    with Suc show ?thesis by simp
  qed
  have "\<lceil>real n / real s\<rceil> = int q"
    by (rule ceiling_unique) (use lo hi in simp_all)
  then show ?thesis by (simp add: q_def)
qed

lemma length_py_range:
  assumes "0 < s" "py_range n s = Inr ys"
  shows "length ys = nat \<lceil>real n / real_of_int s\<rceil>"
proof -
  from assms have "ys = map (\<lambda>k. k * nat s) [0..<(n + nat s - 1) div nat s]"
    by (simp add: py_range_pos)
  then have "length ys = (n + nat s - 1) div nat s" by simp
  also have "\<dots> = nat \<lceil>real n / real (nat s)\<rceil>"
    using assms(1) by (intro ceil_div) simp
  also have "real (nat s) = real_of_int s" using assms(1) by simp
  finally show ?thesis .
qed

lemma visited_pos:
  assumes "0 < s"
  obtains ys xs where "py_range h s = Inr ys" "py_range w s = Inr xs"
    "visited h w s = Inr (List.product ys xs)"
  using assms by (simp add: visited_def bindE_def py_range_pos)

lemma sorted_product:
  assumes "sorted_wrt (<) (ys :: nat list)" "sorted_wrt (<) xs"
  shows "sorted_wrt (\<lambda>a b. fst a < fst b \<or> fst a = fst b \<and> snd a < snd b)
           (List.product ys (xs :: nat list))"
  using assms(1)
proof (induction ys)
  case Nil
  then show ?case by simp
next
  case (Cons y ys)
  have "sorted_wrt (\<lambda>a b. fst a < fst b \<or> fst a = fst b \<and> snd a < snd b) (map (Pair y) xs)"
    using assms(2) by (simp add: sorted_wrt_map less_irrefl)
  with Cons show ?case by (auto simp: sorted_wrt_append)
qed

lemma scan_image_visited:
  "scan_image fl thr stride preds i st =
     (case shape2 (world_points_from_depth preds ! i) of (h, w) \<Rightarrow>
      bindE (item (original_images preds) i) (\<lambda>orig_img.
        if h = 0 \<or> w = 0 then Inl ZeroDivisionError
        else bindE (visited h w stride) (\<lambda>ps.
          foldE (\<lambda>(y, x). visit fl thr (depth_conf preds) (world_points_from_depth preds ! i)
                   orig_img i y x) ps st)))"
  unfolding scan_image_def visited_def Let_def
  by (auto simp: bindE_def foldE_product split: prod.splits sum.splits)


lemma set_visited:
  assumes "0 < s" "visited h w s = Inr ps"
  shows "set ps = {(y, x). y < h \<and> x < w \<and> nat s dvd y \<and> nat s dvd x}"
    and "distinct ps"
    and "length ps = nat \<lceil>real h / real_of_int s\<rceil> * nat \<lceil>real w / real_of_int s\<rceil>"
proof -
  from assms(1) obtain ys xs where r: "py_range h s = Inr ys" "py_range w s = Inr xs"
    "visited h w s = Inr (List.product ys xs)" by (rule visited_pos)
  with assms(2) have ps: "ps = List.product ys xs" by simp
  show "set ps = {(y, x). y < h \<and> x < w \<and> nat s dvd y \<and> nat s dvd x}"
    unfolding ps set_product set_py_range [OF assms(1) r(1)] set_py_range [OF assms(1) r(2)]
    by auto
  show "distinct ps"
    unfolding ps
    by (rule distinct_product) (rule distinct_py_range [OF assms(1)], fact)+
  show "length ps = nat \<lceil>real h / real_of_int s\<rceil> * nat \<lceil>real w / real_of_int s\<rceil>"
    unfolding ps length_product
    by (simp only: length_py_range [OF assms(1) r(1)] length_py_range [OF assms(1) r(2)])
qed

text \<open>
  Claim C7. For a stride \<open>S \<ge> 1\<close> the loops over an \<open>h\<close> by \<open>w\<close> grid visit, once each,
  exactly the positions whose row and column are multiples of \<open>S\<close>; their number is
  \<open>\<lceil>h/S\<rceil> \<times> \<lceil>w/S\<rceil>\<close>; the positions visited at stride \<open>2S\<close> are among them, so doubling
  the stride never visits more; a 4 by 4 grid at stride 2 gives (0,0), (0,2), (2,0),
  (2,2); and \<open>scan_image\<close> runs the sample body over exactly these positions.
\<close>

theorem stride_visits:
  assumes "1 \<le> S"
  shows "\<exists>ps ps2. visited h w S = Inr ps
      \<and> distinct ps
      \<and> set ps = {(y, x). y < h \<and> x < w \<and> nat S dvd y \<and> nat S dvd x}
      \<and> length ps = nat \<lceil>real h / real_of_int S\<rceil> * nat \<lceil>real w / real_of_int S\<rceil>
      \<and> visited h w (2 * S) = Inr ps2
      \<and> set ps2 \<subseteq> set ps \<and> length ps2 \<le> length ps
      \<and> visited 4 4 2 = Inr [(0, 0), (0, 2), (2, 0), (2, 2)]
      \<and> scan_image fl thr S preds i st =
          (case shape2 (world_points_from_depth preds ! i) of (h, w) \<Rightarrow>
           bindE (item (original_images preds) i) (\<lambda>orig_img.
             if h = 0 \<or> w = 0 then Inl ZeroDivisionError
             else bindE (visited h w S) (\<lambda>ps.
               foldE (\<lambda>(y, x). visit fl thr (depth_conf preds)
                        (world_points_from_depth preds ! i) orig_img i y x) ps st)))"
proof -
  have s: "0 < S" and s2: "0 < 2 * S" using assms by simp_all
  from s obtain ys xs where "visited h w S = Inr (List.product ys xs)"
    by (rule visited_pos)
  then obtain ps where ps: "visited h w S = Inr ps" by blast
  from s2 obtain ys2 xs2 where "visited h w (2 * S) = Inr (List.product ys2 xs2)"
    by (rule visited_pos)
  then obtain ps2 where ps2: "visited h w (2 * S) = Inr ps2" by blast
  note a = set_visited [OF s ps] and b = set_visited [OF s2 ps2]
  have "nat S dvd y" if "nat (2 * S) dvd y" for y
  proof -
    have "nat (2 * S) = 2 * nat S" using s by (simp add: nat_mult_distrib)
    with that show ?thesis by (metis dvd_mult_right)
  qed
  then have sub: "set ps2 \<subseteq> set ps" unfolding a(1) b(1) by auto
  have "card (set ps2) \<le> card (set ps)" by (rule card_mono [OF _ sub]) simp
  then have len: "length ps2 \<le> length ps"
    by (simp only: distinct_card [OF a(2)] distinct_card [OF b(2)])
  have four: "visited 4 4 2 = Inr [(0, 0), (0, 2), (2, 0), (2, 2)]"
    by (simp add: visited_def py_range_def bindE_def upt_rec)
  from ps a(2) a(1) a(3) ps2 sub len four scan_image_visited [of fl thr S preds i st]
  show ?thesis by blast
qed

theorem stride_visits_witness:
  "visited 6 4 3 = Inr [(0, 0), (0, 3), (3, 0), (3, 3)]
   \<and> length [(0 :: nat, 0 :: nat), (0, 3), (3, 0), (3, 3)]
       = nat \<lceil>real 6 / real_of_int 3\<rceil> * nat \<lceil>real 4 / real_of_int 3\<rceil>"
proof -
  have s: "(1 :: int) \<le> 3" by simp
  have a: "visited 6 4 3 = Inr [(0, 0), (0, 3), (3, 0), (3, 3)]"
    by (simp add: visited_def py_range_def bindE_def upt_rec)
  from stride_visits [OF s, of 6 4] obtain ps where
    ps: "visited 6 4 3 = Inr ps"
      "length ps = nat \<lceil>real 6 / real_of_int 3\<rceil> * nat \<lceil>real 4 / real_of_int 3\<rceil>"
    by blast
  from ps(1) a have "ps = [(0, 0), (0, 3), (3, 0), (3, 3)]" by simp
  with ps(2) have "length [(0 :: nat, 0 :: nat), (0, 3), (3, 0), (3, 3)]
       = nat \<lceil>real 6 / real_of_int 3\<rceil> * nat \<lceil>real 4 / real_of_int 3\<rceil>" by simp
  with a show ?thesis by (rule conjI)
qed

subsection \<open>Dense identifiers\<close>

lemma add_sample_keypoints:
  assumes "add_sample i x y p c st = Inr st'"
  shows "i < length (image_points2D st)
     \<and> (\<exists>q. image_points2D st' = (image_points2D st)[i := image_points2D st ! i @ [(x, y, q)]])"
  using assms
proof (cases rule: add_sample_cases)
  case new
  have "image_points2D st' =
      (image_points2D st)[i := image_points2D st ! i @ [(x, y, length (points3D st))]]"
    unfolding new(3) by simp
  with new(2) show ?thesis by blast
next
  case (old k)
  have "image_points2D st' = (image_points2D st)[i := image_points2D st ! i @ [(x, y, k)]]"
    unfolding old(3) by simp
  with old(2) show ?thesis by blast
qed

lemma visit_keypoints:
  assumes "visit fl thr confs g orig_img i y x st = Inr st'"
  shows "image_points2D st' = image_points2D st
       \<or> (i < length (image_points2D st)
          \<and> (\<exists>q. image_points2D st' =
                 (image_points2D st)[i := image_points2D st ! i @ [(x, y, q)]]))"
proof -
  from visit_effect [OF assms] show ?thesis
  proof
    assume "st' = st"
    then show ?thesis by simp
  next
    assume "\<exists>p c. add_sample i x y p c st = Inr st'"
    then obtain p c where "add_sample i x y p c st = Inr st'" by blast
    from add_sample_keypoints [OF this] show ?thesis by (rule disjI2)
  qed
qed

lemma walk_inv_same:
  assumes "walk_inv i K0 (a # ps) st" "image_points2D st' = image_points2D st"
  shows "walk_inv i K0 ps st'"
  using assms unfolding walk_inv_def by auto

lemma walk_inv_grown:
  assumes "walk_inv i K0 ((y, x) # ps) st"
    and "sorted_wrt visited_before ((y, x) # ps)"
    and i: "i < length (image_points2D st)"
    and k: "image_points2D st' = (image_points2D st)[i := image_points2D st ! i @ [(x, y, q)]]"
  shows "walk_inv i K0 ps st'"
proof -
  from assms(1) i have len: "length (image_points2D st) = length K0" "i < length K0"
    unfolding walk_inv_def by auto
  from assms(1) len have ord: "in_visit_order (image_points2D st ! i)"
    unfolding walk_inv_def by blast
  from assms(1) len have old:
    "\<And>k a. k \<in> set (image_points2D st ! i) \<Longrightarrow> a \<in> set ((y, x) # ps)
       \<Longrightarrow> visited_before (kp_pos k) a"
    unfolding walk_inv_def by blast
  from assms(1) have fr: "\<And>j. j < length K0 \<Longrightarrow> j \<noteq> i \<Longrightarrow> image_points2D st ! j = K0 ! j"
    unfolding walk_inv_def by blast
  have new: "image_points2D st' ! i = image_points2D st ! i @ [(x, y, q)]"
    using i k by simp
  have pos: "kp_pos (x, y, q) = (y, x)" by (simp add: kp_pos_def)
  have 1: "in_visit_order (image_points2D st' ! i)"
    unfolding new in_visit_order_def sorted_wrt_append
    using ord old [of _ "(y, x)"] by (simp add: in_visit_order_def pos)
  have 2: "visited_before (kp_pos k) a"
    if "k \<in> set (image_points2D st' ! i)" "a \<in> set ps" for k a
  proof (cases "k \<in> set (image_points2D st ! i)")
    case True
    with that(2) show ?thesis by (intro old) simp_all
  next
    case False
    with that(1) have "k = (x, y, q)" unfolding new by simp
    with assms(2) that(2) show ?thesis by (simp add: pos)
  qed
  have 3: "image_points2D st' ! j = K0 ! j" if "j < length K0" "j \<noteq> i" for j
    using fr [OF that] that(2) unfolding k by simp
  have 4: "length (image_points2D st') = length K0" unfolding k using len by simp
  show ?thesis unfolding walk_inv_def using 1 2 3 4 by blast
qed

lemma walk_inv_step:
  assumes "walk_inv i K0 ((y, x) # ps) st"
    and "sorted_wrt visited_before ((y, x) # ps)"
    and "visit fl thr confs g orig_img i y x st = Inr st'"
  shows "walk_inv i K0 ps st'"
proof -
  from visit_keypoints [OF assms(3)] show ?thesis
  proof
    assume "image_points2D st' = image_points2D st"
    with assms(1) show ?thesis by (rule walk_inv_same)
  next
    assume "i < length (image_points2D st)
          \<and> (\<exists>q. image_points2D st' =
                 (image_points2D st)[i := image_points2D st ! i @ [(x, y, q)]])"
    then obtain q where i: "i < length (image_points2D st)"
      and k: "image_points2D st' = (image_points2D st)[i := image_points2D st ! i @ [(x, y, q)]]"
      by blast
    from assms(1,2) i k show ?thesis by (rule walk_inv_grown)
  qed
qed

lemma walk_inv_fold:
  assumes "sorted_wrt visited_before ps" "walk_inv i K0 ps st"
    and "foldE (\<lambda>(y, x). visit fl thr confs g orig_img i y x) ps st = Inr st'"
  shows "walk_inv i K0 [] st'"
  using assms
proof (induction ps arbitrary: st)
  case Nil
  then show ?case by simp
next
  case (Cons a ps)
  obtain y x where a: "a = (y, x)" by (cases a)
  from Cons.prems(3) obtain s1 where s1: "visit fl thr confs g orig_img i y x st = Inr s1"
    "foldE (\<lambda>(y, x). visit fl thr confs g orig_img i y x) ps s1 = Inr st'"
    unfolding a by (cases "visit fl thr confs g orig_img i y x st") simp_all
  have "walk_inv i K0 ps s1"
    using Cons.prems(2,1) s1(1) unfolding a by (rule walk_inv_step)
  moreover from Cons.prems(1) have "sorted_wrt visited_before ps" by simp
  ultimately show ?case using s1(2) by (intro Cons.IH)
qed

lemma visited_sorted:
  assumes "visited h w s = Inr ps"
  shows "sorted_wrt visited_before ps"
proof -
  from assms obtain ys xs where r: "py_range h s = Inr ys" "py_range w s = Inr xs"
    "ps = List.product ys xs"
    unfolding visited_def by (auto dest!: bindE_Inr)
  have "visited_before = (\<lambda>a b. fst a < fst b \<or> fst a = fst b \<and> snd a < snd b)"
    by (intro ext) (simp add: visited_before_def)
  then show ?thesis
    unfolding r(3) using sorted_product [OF sorted_py_range [OF r(1)] sorted_py_range [OF r(2)]]
    by simp
qed

lemma scan_image_order:
  assumes "scan_image fl thr stride preds i st = Inr st'"
    and "i < length (image_points2D st) \<longrightarrow> image_points2D st ! i = []"
  shows "walk_inv i (image_points2D st) [] st'"
proof -
  obtain h w where hw: "shape2 (world_points_from_depth preds ! i) = (h, w)"
    by (cases "shape2 (world_points_from_depth preds ! i)")
  from assms(1) obtain orig_img ps where ps: "visited h w stride = Inr ps"
    and f: "foldE (\<lambda>(y, x). visit fl thr (depth_conf preds)
              (world_points_from_depth preds ! i) orig_img i y x) ps st = Inr st'"
    unfolding scan_image_visited hw by (auto split: if_splits dest!: bindE_Inr)
  have "walk_inv i (image_points2D st) ps st"
    using assms(2) unfolding walk_inv_def in_visit_order_def by simp
  with visited_sorted [OF ps] show ?thesis using f by (rule walk_inv_fold)
qed

lemma images_inv_step:
  assumes "images_inv N m st" "scan_image fl thr stride preds m st = Inr st'"
  shows "images_inv N (Suc m) st'"
proof -
  from assms(1) have len: "length (image_points2D st) = N"
    and past: "\<And>j. j < N \<Longrightarrow> j < m \<Longrightarrow> in_visit_order (image_points2D st ! j)"
    and todo: "\<And>j. j < N \<Longrightarrow> m \<le> j \<Longrightarrow> image_points2D st ! j = []"
    unfolding images_inv_def by blast+
  have "m < length (image_points2D st) \<longrightarrow> image_points2D st ! m = []"
    using todo [of m] len by simp
  from scan_image_order [OF assms(2) this]
  have l: "length (image_points2D st') = N"
    and fr: "\<And>j. j < N \<Longrightarrow> j \<noteq> m \<Longrightarrow> image_points2D st' ! j = image_points2D st ! j"
    and o: "m < N \<Longrightarrow> in_visit_order (image_points2D st' ! m)"
    unfolding walk_inv_def len by blast+
  have "in_visit_order (image_points2D st' ! j)" if "j < N" "j < Suc m" for j
  proof (cases "j = m")
    case True
    with that(1) o show ?thesis by simp
  next
    case False
    with that have "j < m" by simp
    from past [OF that(1) this] fr [OF that(1) False] show ?thesis by simp
  qed
  moreover have "image_points2D st' ! j = []" if "j < N" "Suc m \<le> j" for j
  proof -
    from that(2) have "j \<noteq> m" "m \<le> j" by simp_all
    from fr [OF that(1) this(1)] todo [OF that(1) this(2)] show ?thesis by simp
  qed
  ultimately show ?thesis unfolding images_inv_def using l by blast
qed

lemma images_inv_fold:
  assumes "images_inv N 0 st"
    and "foldE (scan_image fl thr stride preds) [0..<n] st = Inr st'"
  shows "images_inv N n st'"
  using assms(2)
proof (induction n arbitrary: st')
  case 0
  with assms(1) show ?case by simp
next
  case (Suc n)
  from Suc.prems obtain s1 where s1: "foldE (scan_image fl thr stride preds) [0..<n] st = Inr s1"
    "scan_image fl thr stride preds n s1 = Inr st'"
    by (auto simp: foldE_append split: sum.splits dest!: bindE_Inr)
  from Suc.IH [OF s1(1)] s1(2) show ?case by (rule images_inv_step)
qed

lemma images_inv_init: "images_inv (length (depth preds)) 0 (init_state preds)"
  by (simp add: images_inv_def init_state_def)

lemma run_in_visit_order:
  assumes "filter_and_prepare_points preds pct fl stride = Inr (pts, kps)"
  shows "length kps = length (depth preds)" "\<And>i. i < length kps \<Longrightarrow> in_visit_order (kps ! i)"
proof -
  from assms obtain thr st where st:
    "foldE (scan_image fl thr stride preds) [0..<length (world_points_from_depth preds)]
       (init_state preds) = Inr st" "kps = image_points2D st"
    by (rule run_effect)
  note inv = images_inv_fold [OF images_inv_init st(1)]
  from inv show len: "length kps = length (depth preds)"
    unfolding images_inv_def st(2) by blast
  fix i assume i: "i < length kps"
  show "in_visit_order (kps ! i)"
  proof (cases "i < length (world_points_from_depth preds)")
    case True
    with inv i len show ?thesis unfolding images_inv_def st(2) by auto
  next
    case False
    with inv i len have "kps ! i = []" unfolding images_inv_def st(2) by auto
    then show ?thesis by (simp add: in_visit_order_def)
  qed
qed

text \<open>
  Claim C4. After a run that returns \<open>P\<close> points, the point ids are \<open>0, \<dots>, P - 1\<close> in
  storage order, there is one keypoint list per image, the keypoint indices that the
  tracks use for image \<open>i\<close> are exactly \<open>0, \<dots>, K\<^sub>i - 1\<close>, and the keypoints of an image
  stand in the order in which their grid positions were visited.
\<close>

theorem dense_ids:
  assumes "filter_and_prepare_points preds conf_threshold fl stride = Inr (pts, kps)"
  shows "map pid pts = [0..<length pts]
       \<and> length kps = length (depth preds)
       \<and> (\<forall>i<length kps.
            {k. (i, k) \<in> set (concat (map track pts))} = {0..<length (kps ! i)}
            \<and> in_visit_order (kps ! i))"
proof -
  from run_consistent [OF assms] obtain st where
    st: "consistent st" "pts = points3D st" "kps = image_points2D st" by blast
  have ids: "map pid pts = [0..<length pts]"
    using st(1) unfolding st(2) consistent_def inv_ids_def
    by (intro nth_equalityI) simp_all
  have cnt: "count_list (concat (map track pts)) (i, k) =
      (if i < length kps \<and> k < length (kps ! i) then 1 else 0)" for i k
    using st(1) unfolding st(2,3) consistent_def inv_count_def all_tracks_def by blast
  have dense: "{k. (i, k) \<in> set (concat (map track pts))} = {0..<length (kps ! i)}"
    if "i < length kps" for i
  proof (rule set_eqI)
    fix k
    have "(i, k) \<in> set (concat (map track pts)) \<longleftrightarrow>
        count_list (concat (map track pts)) (i, k) \<noteq> 0"
      by (simp only: count_list_0_iff simp_thms)
    also have "\<dots> \<longleftrightarrow> k < length (kps ! i)" unfolding cnt using that by simp
    finally show "k \<in> {k. (i, k) \<in> set (concat (map track pts))} \<longleftrightarrow>
        k \<in> {0..<length (kps ! i)}" by simp
  qed
  from ids run_in_visit_order [OF assms] dense show ?thesis by blast
qed

theorem dense_ids_witness:
  "filter_and_prepare_points
     (pair_scene (Finite 0, Finite 0, Finite 0) (Finite 1, Finite 0, Finite 0)
        (128, 128, 128)) 0 no_flags 1 =
   Inr ([\<lparr>pid = 0, xyz = (0, 0, 0), color = (128, 128, 128), err = 1, track = [(0, 0)]\<rparr>,
         \<lparr>pid = 1, xyz = (1, 0, 0), color = (128, 128, 128), err = 1, track = [(0, 1)]\<rparr>],
        [[(0, 0, 0), (1, 0, 1)]])
   \<and> map pid
        [\<lparr>pid = 0, xyz = (0 :: real, 0 :: real, 0 :: real),
          color = (128 :: 8 word, 128 :: 8 word, 128 :: 8 word), err = 1 :: real,
          track = [(0 :: nat, 0 :: nat)]\<rparr>,
         \<lparr>pid = 1, xyz = (1, 0, 0), color = (128, 128, 128), err = 1, track = [(0, 1)]\<rparr>]
      = [0..<length
        [\<lparr>pid = 0, xyz = (0 :: real, 0 :: real, 0 :: real),
          color = (128 :: 8 word, 128 :: 8 word, 128 :: 8 word), err = 1 :: real,
          track = [(0 :: nat, 0 :: nat)]\<rparr>,
         \<lparr>pid = 1, xyz = (1, 0, 0), color = (128, 128, 128), err = 1, track = [(0, 1)]\<rparr>]]"
proof -
  have run: "filter_and_prepare_points
     (pair_scene (Finite 0, Finite 0, Finite 0) (Finite 1, Finite 0, Finite 0)
        (128, 128, 128)) 0 no_flags 1 =
   Inr ([\<lparr>pid = 0, xyz = (0, 0, 0), color = (128, 128, 128), err = 1, track = [(0, 0)]\<rparr>,
         \<lparr>pid = 1, xyz = (1, 0, 0), color = (128, 128, 128), err = 1, track = [(0, 1)]\<rparr>],
        [[(0, 0, 0), (1, 0, 1)]])"
    by code_simp
  from run dense_ids [OF run, THEN conjunct1] show ?thesis by (rule conjI)
qed

subsection \<open>The confidence cutoff\<close>

text \<open>The largest confidence: it is NaN, or an entry that no entry exceeds.\<close>

lemma fl_le_trans: "fl_le a b \<Longrightarrow> fl_le b c \<Longrightarrow> fl_le a c"
  by (cases a; cases b; cases c) simp_all

lemma fl_max_upper:
  assumes "fl_max a b \<noteq> NaN"
  shows "fl_le a (fl_max a b)" "fl_le b (fl_max a b)"
  using assms by (cases a; cases b; simp add: fl_max_def)+

lemma fl_max_cases: "fl_max a b = NaN \<or> fl_max a b = a \<or> fl_max a b = b"
  by (simp add: fl_max_def)

lemma fold_fl_max:
  "fold fl_max vs v = NaN
     \<or> fold fl_max vs v \<in> set (v # vs) \<and> (\<forall>u\<in>set (v # vs). fl_le u (fold fl_max vs v))"
proof (induction vs arbitrary: v)
  case Nil
  show ?case by (cases v) simp_all
next
  case (Cons a vs)
  let ?m = "fold fl_max vs (fl_max a v)"
  from Cons.IH [of "fl_max a v"] show ?case
  proof
    assume "?m = NaN"
    then show ?thesis by simp
  next
    assume r: "?m \<in> set (fl_max a v # vs) \<and> (\<forall>u\<in>set (fl_max a v # vs). fl_le u ?m)"
    then have le: "fl_le (fl_max a v) ?m" by simp
    then have n: "fl_max a v \<noteq> NaN" by (cases "fl_max a v") simp_all
    from fl_max_upper [OF n] le have "fl_le a ?m" "fl_le v ?m"
      by (blast intro: fl_le_trans)+
    moreover from r fl_max_cases [of a v] n have "?m \<in> set (v # a # vs)" by auto
    ultimately show ?thesis using r by simp
  qed
qed

lemma np_max_greatest:
  assumes "np_max a = Inr m"
  shows "m = NaN \<or> m \<in> set (flat a) \<and> (\<forall>v\<in>set (flat a). fl_le v m)"
proof -
  from assms obtain v vs where a: "flat a = v # vs" and m: "m = fold fl_max vs v"
    by (auto simp: np_max_def split: list.splits)
  from fold_fl_max [of vs v] show ?thesis unfolding a m by simp
qed



lemma item_in_flat:
  assumes "item a i = Inr cg" "item cg y = Inr crow" "item crow x = Inr v"
  shows "v \<in> set (flat a)"
proof -
  from assms have "cg \<in> set a" "crow \<in> set cg" "v \<in> set crow"
    by (auto simp: item_def split: if_splits)
  then show ?thesis unfolding flat_def by auto
qed

lemma confidence_at_in_flat:
  assumes "confidence_at preds i y x = Inr v"
  shows "v \<in> set (flat (depth_conf preds))"
proof -
  from assms obtain cg crow where "item (depth_conf preds) i = Inr cg" "item cg y = Inr crow"
    "item crow x = Inr v"
    unfolding confidence_at_def by (blast dest!: bindE_Inr)
  then show ?thesis by (rule item_in_flat)
qed

lemma visit_confidence_at:
  "visit fl thr (depth_conf preds) g orig_img i y x st =
     bindE (confidence_at preds i y x) (\<lambda>conf.
       if fl_gt conf thr then
         bindE (examine fl g orig_img y x) (\<lambda>r.
           case r of None \<Rightarrow> Inr st | Some (p, c) \<Rightarrow> add_sample i x y p c st)
       else Inr st)"
  unfolding visit_def confidence_at_def
  by (simp add: bindE_def split: sum.splits)







text \<open>
  A confidence that is NaN is outside that theorem: the largest confidence and the cutoff
  are then NaN, and the sample is rejected although NaN is not at most the cutoff.
\<close>

lemma nan_confidence:
  assumes "confidence_at preds i y x = Inr NaN"
  shows "np_max (depth_conf preds) = Inr NaN"
    and "cutoff preds pct = Inr NaN"
    and "visit fl thr (depth_conf preds) g orig_img i y x st = Inr st"
    and "\<not> fl_le NaN thr"
proof -
  from confidence_at_in_flat [OF assms] have n: "NaN \<in> set (flat (depth_conf preds))" .
  then obtain m where m: "np_max (depth_conf preds) = Inr m"
    by (cases "flat (depth_conf preds)") (auto simp: np_max_def)
  from np_max_greatest [OF m] n have "m = NaN \<or> fl_le NaN m" by blast
  then have "m = NaN" by simp
  with m show a: "np_max (depth_conf preds) = Inr NaN" by simp
  then show "cutoff preds pct = Inr NaN" by (simp add: cutoff_def bindE_def)
  show "visit fl thr (depth_conf preds) g orig_img i y x st = Inr st"
    unfolding visit_confidence_at assms by (simp add: bindE_def)
  show "\<not> fl_le NaN thr" by simp
qed

subsection \<open>Raising the confidence threshold\<close>

lemma add_sample_keys:
  assumes "add_sample i x y p c st = Inr st'"
  shows "dom (point_indices st') = insert (hash_point p 100) (dom (point_indices st))"
    and "length (image_points2D st') = length (image_points2D st)"
    and "i < length (image_points2D st)"
proof -
  show "dom (point_indices st') = insert (hash_point p 100) (dom (point_indices st))"
    using assms
  proof (cases rule: add_sample_cases)
    case new
    show ?thesis unfolding new(3) by simp
  next
    case (old k)
    from old(1) show ?thesis unfolding old(3) by auto
  qed
  from add_sample_keypoints [OF assms]
  show "length (image_points2D st') = length (image_points2D st)"
    and "i < length (image_points2D st)" by auto
qed

lemma add_sample_returns:
  assumes "i < length (image_points2D st)"
  shows "\<exists>st'. add_sample i x y p c st = Inr st'"
proof (cases "point_indices st (hash_point p 100)")
  case None
  from add_sample_new [OF None assms] show ?thesis by blast
next
  case (Some k)
  from add_sample_old [OF Some assms] show ?thesis by blast
qed

lemma fewer_keys_add_both:
  assumes "fewer_keys s1 s2" "add_sample i x y p c s1 = Inr s1'"
  shows "\<exists>s2'. add_sample i x y p c s2 = Inr s2' \<and> fewer_keys s1' s2'"
proof -
  note a = add_sample_keys [OF assms(2)]
  from a(3) assms(1) have "i < length (image_points2D s2)" by (simp add: fewer_keys_def)
  from add_sample_returns [OF this] obtain s2' where s2: "add_sample i x y p c s2 = Inr s2'"
    by blast
  note b = add_sample_keys [OF s2]
  from assms(1) have "fewer_keys s1' s2'"
    unfolding fewer_keys_def a(1,2) b(1,2) by auto
  with s2 show ?thesis by blast
qed

lemma fewer_keys_add_left:
  assumes "fewer_keys s1 s2" "add_sample i x y p c s1 = Inr s1'"
  shows "fewer_keys s1' s2"
  using assms(1) unfolding fewer_keys_def add_sample_keys(1,2) [OF assms(2)] by auto

lemma visit_sim:
  assumes k: "\<And>v. v \<in> set (flat confs) \<Longrightarrow> fl_gt v thr2 \<Longrightarrow> fl_gt v thr1"
    and r: "fewer_keys s1 s2"
    and v: "visit fl thr1 confs g orig_img i y x s1 = Inr s1'"
  shows "\<exists>s2'. visit fl thr2 confs g orig_img i y x s2 = Inr s2' \<and> fewer_keys s1' s2'"
proof -
  from v obtain cg crow conf where
    it: "item confs i = Inr cg" "item cg y = Inr crow" "item crow x = Inr conf"
    and body: "(if fl_gt conf thr1 then
         bindE (examine fl g orig_img y x) (\<lambda>r.
           case r of None \<Rightarrow> Inr s1 | Some (p, c) \<Rightarrow> add_sample i x y p c s1)
       else Inr s1) = Inr s1'"
    unfolding visit_def by (blast dest!: bindE_Inr)
  have v2: "visit fl thr2 confs g orig_img i y x s2 =
      (if fl_gt conf thr2 then
         bindE (examine fl g orig_img y x) (\<lambda>r.
           case r of None \<Rightarrow> Inr s2 | Some (p, c) \<Rightarrow> add_sample i x y p c s2)
       else Inr s2)"
    unfolding visit_def using it by (simp add: bindE_def)
  show ?thesis
  proof (cases "fl_gt conf thr2")
    case True
    from item_in_flat [OF it] have "conf \<in> set (flat confs)" .
    from k [OF this True] have "fl_gt conf thr1" .
    with body obtain res where res: "examine fl g orig_img y x = Inr res"
      "(case res of None \<Rightarrow> Inr s1 | Some (p, c) \<Rightarrow> add_sample i x y p c s1) = Inr s1'"
      by (auto dest!: bindE_Inr)
    show ?thesis
    proof (cases res)
      case None
      with res True r show ?thesis unfolding v2 by (simp add: bindE_def)
    next
      case (Some pc)
      obtain p c where pc: "pc = (p, c)" by (cases pc)
      from res(2) have "add_sample i x y p c s1 = Inr s1'" unfolding Some pc by simp
      from fewer_keys_add_both [OF r this] obtain s2' where
        "add_sample i x y p c s2 = Inr s2'" "fewer_keys s1' s2'" by blast
      with res(1) True show ?thesis unfolding v2 Some pc by (simp add: bindE_def)
    qed
  next
    case False
    from visit_effect [OF v] have "fewer_keys s1' s2"
    proof
      assume "s1' = s1"
      with r show ?thesis by simp
    next
      assume "\<exists>p c. add_sample i x y p c s1 = Inr s1'"
      then obtain p c where "add_sample i x y p c s1 = Inr s1'" by blast
      with r show ?thesis by (rule fewer_keys_add_left)
    qed
    with False show ?thesis unfolding v2 by simp
  qed
qed

lemma foldE_sim:
  assumes "\<And>a s1 s2 s1'. R s1 s2 \<Longrightarrow> f1 a s1 = Inr s1'
             \<Longrightarrow> \<exists>s2'. f2 a s2 = Inr s2' \<and> R s1' s2'"
  shows "R s1 s2 \<Longrightarrow> foldE f1 as s1 = Inr s1'
           \<Longrightarrow> \<exists>s2'. foldE f2 as s2 = Inr s2' \<and> R s1' s2'"
proof (induction as arbitrary: s1 s2)
  case Nil
  then show ?case by simp
next
  case (Cons a as)
  from Cons.prems(2) obtain t1 where t1: "f1 a s1 = Inr t1" "foldE f1 as t1 = Inr s1'"
    by (cases "f1 a s1") simp_all
  from assms [OF Cons.prems(1) t1(1)] obtain t2 where t2: "f2 a s2 = Inr t2" "R t1 t2"
    by blast
  from Cons.IH [OF t2(2) t1(2)] obtain s2' where "foldE f2 as t2 = Inr s2'" "R s1' s2'"
    by blast
  with t2(1) show ?case by simp
qed

lemma scan_image_sim:
  assumes k: "\<And>v. v \<in> set (flat (depth_conf preds)) \<Longrightarrow> fl_gt v thr2 \<Longrightarrow> fl_gt v thr1"
    and r: "fewer_keys s1 s2"
    and v: "scan_image fl thr1 stride preds i s1 = Inr s1'"
  shows "\<exists>s2'. scan_image fl thr2 stride preds i s2 = Inr s2' \<and> fewer_keys s1' s2'"
proof -
  obtain h w where hw: "shape2 (world_points_from_depth preds ! i) = (h, w)"
    by (cases "shape2 (world_points_from_depth preds ! i)")
  from v obtain orig_img ps where o: "item (original_images preds) i = Inr orig_img"
    and z: "\<not> (h = 0 \<or> w = 0)"
    and ps: "visited h w stride = Inr ps"
    and f: "foldE (\<lambda>(y, x). visit fl thr1 (depth_conf preds)
              (world_points_from_depth preds ! i) orig_img i y x) ps s1 = Inr s1'"
    unfolding scan_image_visited hw by (auto split: if_splits dest!: bindE_Inr)
  have "\<exists>s2'. foldE (\<lambda>(y, x). visit fl thr2 (depth_conf preds)
              (world_points_from_depth preds ! i) orig_img i y x) ps s2 = Inr s2'
            \<and> fewer_keys s1' s2'"
  proof (rule foldE_sim [where R = fewer_keys, OF _ r f])
    fix a t1 t2 t1'
    assume t: "fewer_keys t1 t2"
      "(case a of (y, x) \<Rightarrow> visit fl thr1 (depth_conf preds)
          (world_points_from_depth preds ! i) orig_img i y x) t1 = Inr t1'"
    obtain y x where a: "a = (y, x)" by (cases a)
    from t(2) have "visit fl thr1 (depth_conf preds)
          (world_points_from_depth preds ! i) orig_img i y x t1 = Inr t1'"
      unfolding a by simp
    from visit_sim [OF k t(1) this]
    show "\<exists>t2'. (case a of (y, x) \<Rightarrow> visit fl thr2 (depth_conf preds)
          (world_points_from_depth preds ! i) orig_img i y x) t2 = Inr t2'
        \<and> fewer_keys t1' t2'"
      unfolding a by simp
  qed
  then show ?thesis
    unfolding scan_image_visited [of fl thr2] hw using o z ps by (simp add: bindE_def)
qed

lemma walk_consistent:
  assumes "foldE (scan_image fl thr stride preds) ns (init_state preds) = Inr st"
  shows "consistent st"
  by (rule foldE_invariant [where P = consistent, OF _ consistent_init assms])
     (rule scan_image_preserves [where P = consistent], rule consistent_add_sample)

lemma cutoff_order:
  fixes m :: real
  assumes "pct1 \<le> pct2" "pct2 \<le> 100" "v \<le> m" "pct2 / 100 * m < v"
  shows "pct1 / 100 * m < v"
proof (cases "0 \<le> m")
  case True
  with assms(1) have "pct1 / 100 * m \<le> pct2 / 100 * m"
    by (intro mult_right_mono) simp_all
  with assms(4) show ?thesis by simp
next
  case False
  from assms(2) have p: "pct2 / 100 \<le> 1" by simp
  from False have "m < 0" by simp
  with p have "1 * m \<le> pct2 / 100 * m" by (intro mult_right_mono_neg) simp_all
  with assms(3,4) show ?thesis by simp
qed

lemma fl_cutoff_order:
  assumes le: "pct1 \<le> pct2" and range: "pct2 \<le> 100"
    and m: "m = NaN \<or> fl_le v m"
    and gt: "fl_gt v (fl_times (pct2 / 100) m)"
  shows "fl_gt v (fl_times (pct1 / 100) m)"
proof (cases m)
  case (Finite r)
  with m have vm: "fl_le v (Finite r)" by simp
  show ?thesis
  proof (cases v)
    case v: (Finite c)
    from vm gt have "c \<le> r" "pct2 / 100 * r < c" unfolding v Finite by simp_all
    from cutoff_order [OF le range this] show ?thesis unfolding v Finite by simp
  next
    case PosInf
    with vm show ?thesis by simp
  next
    case NegInf
    with gt show ?thesis by simp
  next
    case NaN
    with vm show ?thesis by simp
  qed
next
  case PosInf
  show ?thesis
  proof (cases "0 \<le> pct2")
    case True
    with gt show ?thesis unfolding PosInf by (cases v) (simp_all split: if_splits)
  next
    case False
    with le have "pct2 / 100 < 0" "pct1 / 100 < 0" by simp_all
    with gt show ?thesis unfolding PosInf by simp
  qed
next
  case NegInf
  with m have "v = NegInf" by (cases v) simp_all
  with gt show ?thesis by simp
next
  case NaN
  with gt show ?thesis by (cases v) simp_all
qed

text \<open>
  Claim C6. For two threshold percentages \<open>pct1 <= pct2\<close> in the documented range (at
  most 100), fixed predictions, flags and stride: when the run at \<open>pct1\<close> returns, the
  run at \<open>pct2\<close> returns too and gives at most as many 3D points. Every sample accepted
  at \<open>pct2\<close> is accepted at \<open>pct1\<close>, so the hashes recorded at \<open>pct2\<close> are among those
  recorded at \<open>pct1\<close>, and the number of points is the number of recorded hashes.
\<close>

theorem confidence_monotone:
  assumes le: "pct1 \<le> pct2" and range: "pct2 \<le> 100"
    and run: "filter_and_prepare_points preds pct1 fl stride = Inr (pts1, kps1)"
  shows "\<exists>pts2 kps2. filter_and_prepare_points preds pct2 fl stride = Inr (pts2, kps2)
           \<and> length pts2 \<le> length pts1"
proof -
  from run obtain m where m: "np_max (depth_conf preds) = Inr m"
    unfolding filter_and_prepare_points_def cutoff_def by (blast dest!: bindE_Inr)
  have c: "cutoff preds pct = Inr (fl_times (pct / 100) m)" for pct
    using m by (simp add: cutoff_def bindE_def)
  from run obtain s1 where s1:
    "foldE (scan_image fl (fl_times (pct1 / 100) m) stride preds)
       [0..<length (world_points_from_depth preds)] (init_state preds) = Inr s1"
    "pts1 = points3D s1"
    unfolding filter_and_prepare_points_def c by (auto dest!: bindE_Inr)
  have init: "fewer_keys (init_state preds) (init_state preds)"
    by (simp add: fewer_keys_def)
  have k: "fl_gt v (fl_times (pct1 / 100) m)"
    if "v \<in> set (flat (depth_conf preds))" "fl_gt v (fl_times (pct2 / 100) m)" for v
  proof -
    from np_max_greatest [OF m] that(1) have "m = NaN \<or> fl_le v m" by blast
    from fl_cutoff_order [OF le range this that(2)] show ?thesis .
  qed
  have "\<exists>s2. foldE (scan_image fl (fl_times (pct2 / 100) m) stride preds)
       [0..<length (world_points_from_depth preds)] (init_state preds) = Inr s2
       \<and> fewer_keys s1 s2"
  proof (rule foldE_sim [where R = fewer_keys, OF _ init s1(1)])
    fix i t1 t2 t1'
    assume t: "fewer_keys t1 t2"
      "scan_image fl (fl_times (pct1 / 100) m) stride preds i t1 = Inr t1'"
    from scan_image_sim [OF k t]
    show "\<exists>t2'. scan_image fl (fl_times (pct2 / 100) m) stride preds i t2 = Inr t2'
        \<and> fewer_keys t1' t2'" .
  qed
  then obtain s2 where s2:
    "foldE (scan_image fl (fl_times (pct2 / 100) m) stride preds)
       [0..<length (world_points_from_depth preds)] (init_state preds) = Inr s2"
    "fewer_keys s1 s2" by blast
  from walk_consistent [OF s1(1)] walk_consistent [OF s2(1)]
  have c1: "finite (dom (point_indices s1))"
      "card (dom (point_indices s1)) = length (points3D s1)"
    and c2: "card (dom (point_indices s2)) = length (points3D s2)"
    by (simp_all add: consistent_def inv_card_def)
  from s2(2) have "dom (point_indices s2) \<subseteq> dom (point_indices s1)"
    by (simp add: fewer_keys_def)
  from card_mono [OF c1(1) this] have "length (points3D s2) \<le> length pts1"
    unfolding c1(2) c2 s1(2) .
  moreover have "filter_and_prepare_points preds pct2 fl stride =
      Inr (points3D s2, image_points2D s2)"
    unfolding filter_and_prepare_points_def c bindE_def sum.case s2(1) ..
  ultimately show ?thesis by blast
qed

theorem confidence_monotone_witness:
  "(50 :: real) \<le> 100
   \<and> filter_and_prepare_points
     (single_scene 1 (Finite 0, Finite 0, Finite 0) (128, 128, 128)) 50 no_flags 1
   = Inr ([\<lparr>pid = 0, xyz = (0, 0, 0), color = (128, 128, 128), err = 1, track = [(0, 0)]\<rparr>],
          [[(0, 0, 0)]])
   \<and> filter_and_prepare_points
     (single_scene 1 (Finite 0, Finite 0, Finite 0) (128, 128, 128)) 100 no_flags 1
   = Inr ([], [[]])
   \<and> length ([] :: point_entry list)
       \<le> length [\<lparr>pid = 0, xyz = (0 :: real, 0 :: real, 0 :: real),
            color = (128 :: 8 word, 128 :: 8 word, 128 :: 8 word), err = 1 :: real,
            track = [(0 :: nat, 0 :: nat)]\<rparr>]"
proof -
  have le: "(50 :: real) \<le> 100" by simp
  have range: "(100 :: real) \<le> 100" by simp
  have run: "filter_and_prepare_points
     (single_scene 1 (Finite 0, Finite 0, Finite 0) (128, 128, 128)) 50 no_flags 1
   = Inr ([\<lparr>pid = 0, xyz = (0, 0, 0), color = (128, 128, 128), err = 1, track = [(0, 0)]\<rparr>],
          [[(0, 0, 0)]])"
    by code_simp
  have hi: "filter_and_prepare_points
     (single_scene 1 (Finite 0, Finite 0, Finite 0) (128, 128, 128)) 100 no_flags 1
   = Inr ([], [[]])"
    by code_simp
  from confidence_monotone [OF le range run] obtain pts2 kps2 where
    r: "filter_and_prepare_points
     (single_scene 1 (Finite 0, Finite 0, Finite 0) (128, 128, 128)) 100 no_flags 1
      = Inr (pts2, kps2)"
    and l: "length pts2 \<le> length [\<lparr>pid = 0, xyz = (0 :: real, 0 :: real, 0 :: real),
            color = (128 :: 8 word, 128 :: 8 word, 128 :: 8 word), err = 1 :: real,
            track = [(0 :: nat, 0 :: nat)]\<rparr>]"
    by blast
  from r hi have "pts2 = []" by simp
  with l have "length ([] :: point_entry list)
       \<le> length [\<lparr>pid = 0, xyz = (0 :: real, 0 :: real, 0 :: real),
            color = (128 :: 8 word, 128 :: 8 word, 128 :: 8 word), err = 1 :: real,
            track = [(0 :: nat, 0 :: nat)]\<rparr>]" by (simp only:)
  with le run hi show ?thesis by (intro conjI)
qed


text \<open>
  Above the documented range the order can reverse: with the single confidence \<open>-1\<close> the
  cutoff at 50 percent is \<open>-0.5\<close> and at 200 percent it is \<open>-2\<close>.
\<close>

lemma threshold_above_range:
  "filter_and_prepare_points
     (single_scene (- 1) (Finite 0, Finite 0, Finite 0) (128, 128, 128)) 50 no_flags 1
   = Inr ([], [[]])
   \<and> filter_and_prepare_points
     (single_scene (- 1) (Finite 0, Finite 0, Finite 0) (128, 128, 128)) 200 no_flags 1
   = Inr ([\<lparr>pid = 0, xyz = (0, 0, 0), color = (128, 128, 128), err = 1, track = [(0, 0)]\<rparr>],
          [[(0, 0, 0)]])"
  by code_simp

section \<open>Properties of the pose converter\<close>

lemma mapE_Inr:
  "mapE f xs = Inr ys \<longleftrightarrow> list_all2 (\<lambda>x y. f x = Inr y) xs ys"
proof (induction xs arbitrary: ys)
  case Nil
  then show ?case by auto
next
  case (Cons x xs)
  show ?case
  proof (cases "f x")
    case (Inl e)
    then show ?thesis by (auto simp: list_all2_Cons1)
  next
    case (Inr y)
    show ?thesis
    proof (cases "mapE f xs")
      case (Inl e)
      with Inr Cons.IH show ?thesis by (auto simp: list_all2_Cons1)
    next
      case r: (Inr zs)
      with Inr Cons.IH [of zs] Cons.IH show ?thesis by (auto simp: list_all2_Cons1)
    qed
  qed
qed

lemma pose_of_Inr:
  assumes "pose_of as_quat e = Inr (q, t)"
  shows "\<exists>x y z w. as_quat (map (take 3) (take 3 e)) = Inr (x, y, z, w) \<and> q = (w, x, y, z)"
    and "t = map (\<lambda>row. row ! 3) (take 3 e)"
    and "\<forall>row\<in>set (take 3 e). 3 < length row"
proof -
  from assms obtain t' quat where
    t': "mapE (\<lambda>row. item row 3) (take 3 e) = Inr t'"
    and quat: "as_quat (map (take 3) (take 3 e)) = Inr quat"
    and r: "Inr (wxyz quat, t') = (Inr (q, t) :: error + quaternion \<times> real list)"
    unfolding pose_of_def Let_def by (blast dest!: bindE_Inr)
  obtain x y z w where xyzw: "quat = (x, y, z, w)" by (cases quat)
  from r have qt: "q = (w, x, y, z)" "t = t'" unfolding xyzw by (simp_all add: wxyz_def)
  from quat qt(1) show "\<exists>x y z w. as_quat (map (take 3) (take 3 e)) = Inr (x, y, z, w)
      \<and> q = (w, x, y, z)"
    unfolding xyzw by blast
  from t' have l: "list_all2 (\<lambda>row y. item row 3 = Inr y) (take 3 e) t" 
    unfolding qt(2) by (simp only: mapE_Inr)
  from list_all2_lengthD [OF l] have len: "length t = length (take 3 e)" by (rule sym)
  show "t = map (\<lambda>row. row ! 3) (take 3 e)"
  proof (rule nth_equalityI)
    show "length t = length (map (\<lambda>row. row ! 3) (take 3 e))" using len by simp
    fix i assume "i < length t"
    with len have i: "i < length (take 3 e)" by simp
    from list_all2_nthD [OF l i] have "item (take 3 e ! i) 3 = Inr (t ! i)" .
    with i have "item (take 3 e ! i) 3 = Inr (t ! i)" "i < length (take 3 e)" by simp_all
    then show "t ! i = map (\<lambda>row. row ! 3) (take 3 e) ! i"
      by (auto simp: item_def split: if_splits)
  qed
  show "\<forall>row\<in>set (take 3 e). 3 < length row"
  proof
    fix row assume "row \<in> set (take 3 e)"
    then obtain i where i: "i < length (take 3 e)" "row = take 3 e ! i"
      by (auto simp only: in_set_conv_nth)
    from list_all2_nthD [OF l i(1)] have "item row 3 = Inr (t ! i)" unfolding i(2) .
    then show "3 < length row" by (auto simp: item_def split: if_splits)
  qed
qed

lemma mapE_returns:
  assumes "\<And>x. x \<in> set xs \<Longrightarrow> \<exists>y. f x = Inr y"
  shows "\<exists>ys. mapE f xs = Inr ys"
  using assms
proof (induction xs)
  case Nil
  then show ?case by simp
next
  case (Cons x xs)
  from Cons.prems [of x] obtain y where y: "f x = Inr y" by auto
  from Cons.IH Cons.prems obtain ys where "mapE f xs = Inr ys" by auto
  with y show ?case by simp
qed

lemma pose_of_returns:
  assumes "\<And>row. row \<in> set (take 3 e) \<Longrightarrow> 3 < length row"
    and "as_quat (map (take 3) (take 3 e)) = Inr quat"
  shows "\<exists>qt. pose_of as_quat e = Inr qt"
proof -
  have "\<exists>t. mapE (\<lambda>row. item row 3) (take 3 e) = Inr t"
    by (rule mapE_returns) (simp add: item_def assms(1))
  then obtain t where "mapE (\<lambda>row. item row 3) (take 3 e) = Inr t" by blast
  with assms(2) have "pose_of as_quat e = Inr (wxyz quat, t)"
    by (simp add: pose_of_def bindE_def)
  then show ?thesis by (rule exI)
qed

lemma pose_converter_result:
  assumes "extrinsic_to_colmap_format as_quat extrinsics = Inr (quaternions, translations)"
  shows "length quaternions = length extrinsics
       \<and> length translations = length extrinsics
       \<and> (\<forall>i<length extrinsics.
            (\<exists>x y z w. as_quat (map (take 3) (take 3 (extrinsics ! i))) = Inr (x, y, z, w)
                       \<and> quaternions ! i = (w, x, y, z))
            \<and> translations ! i = map (\<lambda>row. row ! 3) (take 3 (extrinsics ! i))
            \<and> (\<forall>row\<in>set (take 3 (extrinsics ! i)). 3 < length row))"
proof -
  from assms obtain qts where qts: "mapE (pose_of as_quat) extrinsics = Inr qts"
    and q: "quaternions = map fst qts" and t: "translations = map snd qts"
    unfolding extrinsic_to_colmap_format_def by (auto dest!: bindE_Inr)
  from qts have l: "list_all2 (\<lambda>e qt. pose_of as_quat e = Inr qt) extrinsics qts"
    by (simp only: mapE_Inr)
  from list_all2_lengthD [OF l] have len: "length qts = length extrinsics" by (rule sym)
  have "(\<exists>x y z w. as_quat (map (take 3) (take 3 (extrinsics ! i))) = Inr (x, y, z, w)
                       \<and> quaternions ! i = (w, x, y, z))
            \<and> translations ! i = map (\<lambda>row. row ! 3) (take 3 (extrinsics ! i))
            \<and> (\<forall>row\<in>set (take 3 (extrinsics ! i)). 3 < length row)"
    if "i < length extrinsics" for i
  proof -
    from list_all2_nthD [OF l that]
    have "pose_of as_quat (extrinsics ! i) = Inr (qts ! i)" .
    then have p: "pose_of as_quat (extrinsics ! i) = Inr (quaternions ! i, translations ! i)"
      unfolding q t using that len by simp
    from pose_of_Inr [OF p] show ?thesis by blast
  qed
  with len show ?thesis unfolding q t by simp
qed

text \<open>
  Claim C8. For every extrinsic matrix the converter returns the library's quaternion
  \<open>(x, y, z, w)\<close> reordered to \<open>(w, x, y, z)\<close>, and as translation the fourth column of the
  first three rows, unchanged. It returns whenever those rows have four columns and the
  library returns a quaternion for each rotation block.
\<close>

theorem pose_converter:
  "((\<forall>e\<in>set extrinsics. (\<forall>row\<in>set (take 3 e). 3 < length row)
        \<and> (\<exists>quat. as_quat (map (take 3) (take 3 e)) = Inr quat))
     \<longrightarrow> (\<exists>r. extrinsic_to_colmap_format as_quat extrinsics = Inr r))
   \<and> (extrinsic_to_colmap_format as_quat extrinsics = Inr (quaternions, translations)
     \<longrightarrow> length quaternions = length extrinsics
       \<and> length translations = length extrinsics
       \<and> (\<forall>i<length extrinsics.
            (\<exists>x y z w. as_quat (map (take 3) (take 3 (extrinsics ! i))) = Inr (x, y, z, w)
                       \<and> quaternions ! i = (w, x, y, z))
            \<and> translations ! i = map (\<lambda>row. row ! 3) (take 3 (extrinsics ! i))
            \<and> (\<forall>row\<in>set (take 3 (extrinsics ! i)). 3 < length row)))"
proof (intro conjI impI)
  assume wf: "\<forall>e\<in>set extrinsics. (\<forall>row\<in>set (take 3 e). 3 < length row)
        \<and> (\<exists>quat. as_quat (map (take 3) (take 3 e)) = Inr quat)"
  have "\<exists>qts. mapE (pose_of as_quat) extrinsics = Inr qts"
  proof (rule mapE_returns)
    fix e assume "e \<in> set extrinsics"
    with wf obtain quat where "\<And>row. row \<in> set (take 3 e) \<Longrightarrow> 3 < length row"
      "as_quat (map (take 3) (take 3 e)) = Inr quat" by blast
    then show "\<exists>qt. pose_of as_quat e = Inr qt" by (rule pose_of_returns)
  qed
  then show "\<exists>r. extrinsic_to_colmap_format as_quat extrinsics = Inr r"
    by (auto simp: extrinsic_to_colmap_format_def bindE_def)
next
  assume r: "extrinsic_to_colmap_format as_quat extrinsics = Inr (quaternions, translations)"
  from pose_converter_result [OF r]
  show "length quaternions = length extrinsics"
    and "length translations = length extrinsics"
    and "\<forall>i<length extrinsics.
            (\<exists>x y z w. as_quat (map (take 3) (take 3 (extrinsics ! i))) = Inr (x, y, z, w)
                       \<and> quaternions ! i = (w, x, y, z))
            \<and> translations ! i = map (\<lambda>row. row ! 3) (take 3 (extrinsics ! i))
            \<and> (\<forall>row\<in>set (take 3 (extrinsics ! i)). 3 < length row)"
    by blast+
qed

theorem pose_converter_witness:
  "extrinsic_to_colmap_format (\<lambda>R. Inr (0, 0, 0, 1))
     [[[1, 0, 0, 5], [0, 1, 0, 6], [0, 0, 1, 7]]] = Inr ([(1, 0, 0, 0)], [[5, 6, 7]])
   \<and> length [(1 :: real, 0 :: real, 0 :: real, 0 :: real)]
       = length [[[1 :: real, 0, 0, 5], [0, 1, 0, 6], [0, 0, 1, 7]]]"
proof -
  have run: "extrinsic_to_colmap_format (\<lambda>R. Inr (0, 0, 0, 1))
     [[[1, 0, 0, 5], [0, 1, 0, 6], [0, 0, 1, 7]]] = Inr ([(1, 0, 0, 0)], [[5, 6, 7]])"
    by (simp add: extrinsic_to_colmap_format_def pose_of_def bindE_def item_def wxyz_def)
  from run pose_converter [THEN conjunct2, THEN mp, OF run, THEN conjunct1]
  show ?thesis by (rule conjI)
qed

section \<open>The two forms of the three files\<close>

subsection \<open>Packed integers\<close>






subsection \<open>Lists of records\<close>









subsection \<open>Cameras\<close>






subsection \<open>Keypoints and track entries\<close>









subsection \<open>Images\<close>




subsection \<open>Points\<close>



subsection \<open>Cross-format equivalence\<close>



subsection \<open>Width and height of the cameras\<close>




end
